theory Spec2Isabelle
  imports Complex_Main "HOL-Library.While_Combinator"
begin

text \<open>
  A model of the engine of the tower-defense game: the effects, targeting, grid and
  pathfinding modules, the simulation tick and tower placement (engine/sim.ts; its text
  and that of types.ts follow effects.ts in the source file, constants.ts follows
  targeting.ts), and the store's \<open>update\<close> that drives the tick.
\<close>

section \<open>Data model (engine/types.ts)\<close>

text \<open>
  JavaScript numbers are modelled as mathematical reals, without NaN and infinities.
  Arithmetic is exact, except in \<open>Grid.distance\<close>, \<open>Grid.distanceSquared\<close> and the
  splash falloff, whose results are compared with a range or floored: there every
  operation is rounded to the nearest double, as the program computes it. Where the
  source can divide by zero or starts a scan at \<open>Infinity\<close> the model writes the case
  out. Counters that the source uses as array indices (\<open>currentWave\<close>,
  \<open>currentEntryIndex\<close>, \<open>tickCount\<close>, ...) are natural numbers. An optional field
  \<open>f?: number\<close> is a \<open>real option\<close>, \<open>None\<close> standing for \<open>undefined\<close>.
\<close>

datatype 'a vec2 = Vec2 (x_of: 'a) (y_of: 'a)

datatype tileType = Path | Buildable | Blocked

datatype mobType = Normal | Fast | Tank | Flying

datatype towerType = Arrow | Cannon | Frost

datatype targetingStrategy = First | Last | Strongest | Weakest | Nearest

datatype gameState = Menu | Playing | Paused | GameOver | Victory

text \<open>
  Entity ids are template strings \<open>mob_${time}_${Math.random()}\<close>. The model keeps the
  two interpolated numbers instead of their decimal rendering (distinct numbers render
  differently); \<open>Named\<close> is any other string.
\<close>

datatype ident = Named string | MobIdent real real | ProjectileIdent real real | TowerIdent real real

record mob =
  mobId :: ident
  pos :: "real vec2"
  hp :: real
  maxHp :: real
  speed :: real
  armor :: real
  bounty :: real
  mobKind :: mobType
  slowUntil :: "real option"
  slowMultiplier :: "real option"
  pathProgress :: real
  isDead :: bool
  reachedEnd :: bool

record tower =
  towerId :: ident
  tile :: "real vec2"
  towerRange :: real
  rate :: real
  damage :: real
  projectileSpeed :: "real option"
  lastFiredAt :: real
  kind :: towerType
  tier :: nat
  cost :: real
  targetId :: "ident option"
  splashRadius :: "real option"
  slowDuration :: "real option"
  slowAmount :: "real option"

text \<open>JavaScript truthiness of an optional number: \<open>undefined\<close> and \<open>0\<close> are falsy.\<close>

fun truthy :: "real option \<Rightarrow> bool" where
  "truthy None = False"
| "truthy (Some v) = (v \<noteq> 0)"

section \<open>Combat effects (engine/effects.ts)\<close>

definition applySlow :: "mob \<Rightarrow> real \<Rightarrow> real \<Rightarrow> real \<Rightarrow> mob" where
  "applySlow mob duration amount currentTime =
     (let newSlowUntil = currentTime + duration;
          newSlowMultiplier = max (1 / 10) amount;
          replaced = mob\<lparr>slowUntil := Some newSlowUntil, slowMultiplier := Some newSlowMultiplier\<rparr>
      in case slowUntil mob of
           None \<Rightarrow> replaced
         | Some until \<Rightarrow>
             if until \<noteq> 0 \<and> until > currentTime then
               (if (case slowMultiplier mob of None \<Rightarrow> False
                    | Some mult \<Rightarrow> mult \<noteq> 0 \<and> mult < newSlowMultiplier)
                then mob
                else if until > newSlowUntil then mob
                else replaced)
             else replaced)"

definition updateMobSpeed :: "mob \<Rightarrow> real \<Rightarrow> real" where
  "updateMobSpeed mob currentTime =
     (if (case slowUntil mob of None \<Rightarrow> False | Some until \<Rightarrow> until \<noteq> 0 \<and> until \<le> currentTime)
      then speed mob
      else case slowMultiplier mob of
             None \<Rightarrow> speed mob
           | Some mult \<Rightarrow> if mult \<noteq> 0 then speed mob * mult else speed mob)"

definition cleanupExpiredEffects :: "mob \<Rightarrow> real \<Rightarrow> mob" where
  "cleanupExpiredEffects mob currentTime =
     (if (case slowUntil mob of None \<Rightarrow> False | Some until \<Rightarrow> until \<noteq> 0 \<and> until \<le> currentTime)
      then mob\<lparr>slowUntil := None, slowMultiplier := None\<rparr>
      else mob)"

definition getEffectiveDamage :: "real \<Rightarrow> real \<Rightarrow> real" where
  "getEffectiveDamage baseDamage armr = max 1 (baseDamage - armr)"

definition applyDamage :: "mob \<Rightarrow> real \<Rightarrow> mob" where
  "applyDamage mob dmg =
     (let newHp = max 0 (hp mob - dmg) in mob\<lparr>hp := newHp, isDead := (newHp \<le> 0)\<rparr>)"

definition isSlowed :: "mob \<Rightarrow> real \<Rightarrow> bool" where
  "isSlowed mob currentTime =
     ((case slowUntil mob of None \<Rightarrow> False | Some until \<Rightarrow> until \<noteq> 0 \<and> until > currentTime)
      \<and> truthy (slowMultiplier mob))"

text \<open>
  The guard of \<open>applySlow\<close>'s outer branch, \<open>mob.slowUntil && mob.slowUntil > currentTime\<close>:
  the mob carries an expiry that has not passed.
\<close>

definition slowPending :: "mob \<Rightarrow> real \<Rightarrow> bool" where
  "slowPending mob currentTime =
     (case slowUntil mob of None \<Rightarrow> False | Some until \<Rightarrow> until \<noteq> 0 \<and> until > currentTime)"

section \<open>Double-precision arithmetic\<close>

text \<open>
  A double is a number \<open>m * 2 ^ e\<close> with an integer \<open>m\<close> of magnitude below \<open>2 ^ 53\<close>
  and \<open>e \<ge> - 1074\<close>. \<open>toDouble\<close> rounds a real to the nearest double, a tie going to
  the even significand (round to nearest, ties to even, the only rounding mode of
  JavaScript): a number of binary exponent \<open>e\<close> is rounded to a multiple of
  \<open>2 ^ (e - 52)\<close>, a subnormal one to a multiple of \<open>2 ^ - 1074\<close>. Overflow to
  \<open>Infinity\<close>, for magnitudes of \<open>2 ^ 1024\<close> and more, is not modelled. The operators
  \<open>+\<close>, \<open>-\<close>, \<open>*\<close>, \<open>/\<close> and \<open>Math.sqrt\<close> on doubles return the rounded exact
  result.
\<close>

definition roundEven :: "real \<Rightarrow> int" where
  "roundEven x =
     (let f = \<lfloor>x\<rfloor>; r = x - of_int f
      in if r < 1 / 2 then f else if 1 / 2 < r then f + 1 else if even f then f else f + 1)"

definition toDouble :: "real \<Rightarrow> real" where
  "toDouble x =
     (if x = 0 then 0
      else let e = max \<lfloor>log 2 \<bar>x\<bar>\<rfloor> (- 1022);
               q = 2 powr (of_int e - 52)
           in of_int (roundEven (x / q)) * q)"

definition dadd :: "real \<Rightarrow> real \<Rightarrow> real" where
  "dadd a b = toDouble (a + b)"

definition dsub :: "real \<Rightarrow> real \<Rightarrow> real" where
  "dsub a b = toDouble (a - b)"

definition dmul :: "real \<Rightarrow> real \<Rightarrow> real" where
  "dmul a b = toDouble (a * b)"

definition ddiv :: "real \<Rightarrow> real \<Rightarrow> real" where
  "ddiv a b = toDouble (a / b)"

definition dsqrt :: "real \<Rightarrow> real" where
  "dsqrt a = toDouble (sqrt a)"

section \<open>Grid utilities (engine/grid.ts)\<close>

definition MAP_WIDTH :: int where "MAP_WIDTH = 20"
definition MAP_HEIGHT :: int where "MAP_HEIGHT = 15"

definition isValid :: "'a::linordered_idom \<Rightarrow> 'a \<Rightarrow> bool" where
  "isValid gx gy = (gx \<ge> 0 \<and> gx < of_int MAP_WIDTH \<and> gy \<ge> 0 \<and> gy < of_int MAP_HEIGHT)"

definition isValidVec :: "('a::linordered_idom) vec2 \<Rightarrow> bool" where
  "isValidVec p = isValid (x_of p) (y_of p)"

definition gridToWorld :: "real \<Rightarrow> real \<Rightarrow> real vec2" where
  "gridToWorld gridX gridY = Vec2 (gridX + 1 / 2) (gridY + 1 / 2)"

definition distance :: "real vec2 \<Rightarrow> real vec2 \<Rightarrow> real" where
  "distance a b =
     (let dx = dsub (x_of a) (x_of b); dy = dsub (y_of a) (y_of b)
      in dsqrt (dadd (dmul dx dx) (dmul dy dy)))"

definition distanceSquared :: "real vec2 \<Rightarrow> real vec2 \<Rightarrow> real" where
  "distanceSquared a b =
     (let dx = dsub (x_of a) (x_of b); dy = dsub (y_of a) (y_of b)
      in dadd (dmul dx dx) (dmul dy dy))"

section \<open>Targeting (engine/targeting.ts)\<close>

text \<open>Each strategy is a linear scan that keeps a running best, as in the source.\<close>

fun firstScan :: "mob list \<Rightarrow> mob option \<Rightarrow> real \<Rightarrow> mob option" where
  "firstScan [] best bestProgress = best"
| "firstScan (m # ms) best bestProgress =
     (if pathProgress m > bestProgress then firstScan ms (Some m) (pathProgress m)
      else firstScan ms best bestProgress)"

definition findFirstTarget :: "mob list \<Rightarrow> mob option" where
  "findFirstTarget ms = firstScan ms None (- 1)"

fun lastScan :: "mob list \<Rightarrow> mob option \<Rightarrow> real \<Rightarrow> mob option" where
  "lastScan [] best bestProgress = best"
| "lastScan (m # ms) best bestProgress =
     (if pathProgress m < bestProgress then lastScan ms (Some m) (pathProgress m)
      else lastScan ms best bestProgress)"

definition findLastTarget :: "mob list \<Rightarrow> mob option" where
  "findLastTarget ms = lastScan ms None 2"

fun strongestScan :: "mob list \<Rightarrow> mob option \<Rightarrow> real \<Rightarrow> mob option" where
  "strongestScan [] best bestHp = best"
| "strongestScan (m # ms) best bestHp =
     (if hp m > bestHp then strongestScan ms (Some m) (hp m)
      else strongestScan ms best bestHp)"

definition findStrongestTarget :: "mob list \<Rightarrow> mob option" where
  "findStrongestTarget ms = strongestScan ms None (- 1)"

text \<open>
  The two remaining scans start at \<open>Infinity\<close>: the running bound is a \<open>real option\<close>
  with \<open>None\<close> for \<open>Infinity\<close>, below which every number lies.
\<close>

fun belowBound :: "real \<Rightarrow> real option \<Rightarrow> bool" where
  "belowBound v None = True"
| "belowBound v (Some b) = (v < b)"

fun weakestScan :: "mob list \<Rightarrow> mob option \<Rightarrow> real option \<Rightarrow> mob option" where
  "weakestScan [] best bestHp = best"
| "weakestScan (m # ms) best bestHp =
     (if belowBound (hp m) bestHp then weakestScan ms (Some m) (Some (hp m))
      else weakestScan ms best bestHp)"

definition findWeakestTarget :: "mob list \<Rightarrow> mob option" where
  "findWeakestTarget ms = weakestScan ms None None"

fun nearestScan :: "real vec2 \<Rightarrow> mob list \<Rightarrow> mob option \<Rightarrow> real option \<Rightarrow> mob option" where
  "nearestScan towerPos [] best bestDistance = best"
| "nearestScan towerPos (m # ms) best bestDistance =
     (let d = distanceSquared towerPos (pos m)
      in if belowBound d bestDistance then nearestScan towerPos ms (Some m) (Some d)
         else nearestScan towerPos ms best bestDistance)"

definition findNearestTarget :: "mob list \<Rightarrow> real vec2 \<Rightarrow> mob option" where
  "findNearestTarget ms towerPos = nearestScan towerPos ms None None"

definition inRange :: "tower \<Rightarrow> mob list \<Rightarrow> mob list" where
  "inRange twr ms =
     filter (\<lambda>m. \<not> isDead m \<and> \<not> reachedEnd m \<and> distance (tile twr) (pos m) \<le> towerRange twr) ms"

definition findTarget :: "tower \<Rightarrow> mob list \<Rightarrow> targetingStrategy \<Rightarrow> mob option" where
  "findTarget twr ms strategy =
     (let cands = inRange twr ms
      in if length cands = 0 then None
         else case strategy of
                First \<Rightarrow> findFirstTarget cands
              | Last \<Rightarrow> findLastTarget cands
              | Strongest \<Rightarrow> findStrongestTarget cands
              | Weakest \<Rightarrow> findWeakestTarget cands
              | Nearest \<Rightarrow> findNearestTarget cands (tile twr))"

definition getMobsInSplashRadius :: "real vec2 \<Rightarrow> real \<Rightarrow> mob list \<Rightarrow> mob list" where
  "getMobsInSplashRadius center radius ms =
     filter (\<lambda>m. \<not> isDead m \<and> \<not> reachedEnd m \<and> distance center (pos m) \<le> radius) ms"

text \<open>
  \<open>applySplashDamage\<close> pushes one result per mob that passes its checks. The damage is
  \<open>Math.max(1, Math.floor(baseDamage * falloff))\<close> with
  \<open>falloff = 1 - (distance / radius) * 0.5\<close>, every operation in doubles. For radius
  \<open>0\<close> the source divides \<open>0 / 0\<close>; the simulation calls it with a non-zero radius
  only.
\<close>

definition splashDamageAt :: "real \<Rightarrow> real \<Rightarrow> real \<Rightarrow> real" where
  "splashDamageAt radius baseDamage d =
     (let falloff = dsub 1 (dmul (ddiv d radius) (1 / 2))
      in max 1 (of_int \<lfloor>dmul baseDamage falloff\<rfloor>))"

fun splashLoop :: "real vec2 \<Rightarrow> real \<Rightarrow> real \<Rightarrow> mob list \<Rightarrow> (mob \<times> real) list \<Rightarrow> (mob \<times> real) list" where
  "splashLoop center radius baseDamage [] results = results"
| "splashLoop center radius baseDamage (m # ms) results =
     (if isDead m \<or> reachedEnd m then splashLoop center radius baseDamage ms results
      else let d = distance center (pos m)
           in if d \<le> radius
              then splashLoop center radius baseDamage ms
                     (results @ [(m, splashDamageAt radius baseDamage d)])
              else splashLoop center radius baseDamage ms results)"

definition applySplashDamage :: "real vec2 \<Rightarrow> real \<Rightarrow> real \<Rightarrow> mob list \<Rightarrow> (mob \<times> real) list" where
  "applySplashDamage center radius baseDamage ms = splashLoop center radius baseDamage ms []"

section \<open>Remaining records (engine/types.ts)\<close>

record projectile =
  pId :: ident
  pPos :: "real vec2"
  pTargetId :: ident
  pSpeed :: real
  pDamage :: real
  pSplashRadius :: "real option"
  isInstant :: "bool option"
  pTowerId :: ident
  createdAt :: real

record waveEntry =
  delay :: real
  entryKind :: mobType
  count :: nat
  spacing :: real

record wave =
  waveId :: real
  entries :: "waveEntry list"
  isActive :: bool
  isComplete :: bool
  startTime :: "real option"
  nextSpawnTime :: "real option"
  currentEntryIndex :: nat
  currentSpawnCount :: nat
  bonusGiven :: "bool option"

record gameMap =
  width :: nat
  height :: nat
  tiles :: "tileType list list"
  paths :: "real vec2 list list"
  spawnPoints :: "real vec2 list"
  basePosition :: "real vec2"

record game =
  time :: real
  state :: gameState
  gameSpeed :: real
  mobs :: "mob list"
  towers :: "tower list"
  projectiles :: "projectile list"
  waves :: "wave list"
  currentWave :: nat
  totalWaves :: nat
  money :: real
  lives :: real
  score :: real
  gmap :: gameMap
  selectedTower :: "ident option"
  hoveredTile :: "real vec2 option"
  buildMode :: "towerType option"
  lastTickTime :: real
  frameTime :: real
  tickCount :: nat

text \<open>
  \<open>TowerDefinition\<close> without its display-only fields (name, description) and without
  the upgrade table, which no modelled function reads.
\<close>

record baseStats =
  bsRange :: real
  bsRate :: real
  bsDamage :: real
  bsProjectileSpeed :: "real option"
  bsSplashRadius :: "real option"
  bsSlowDuration :: "real option"
  bsSlowAmount :: "real option"

record towerDefinition =
  defType :: towerType
  baseCost :: real
  baseStatsOf :: baseStats
  targetingStrategyOf :: targetingStrategy

record mobDefinition =
  mdType :: mobType
  mdHp :: real
  mdSpeed :: real
  mdArmor :: real
  mdBounty :: real

section \<open>Constants (engine/constants.ts)\<close>

definition TICK_DURATION :: real where
  "TICK_DURATION = 1000 / 60"

definition towerDefOf :: "towerType \<Rightarrow> towerDefinition" where
  "towerDefOf k =
     (case k of
        Arrow \<Rightarrow> \<lparr>defType = Arrow, baseCost = 20,
                   baseStatsOf = \<lparr>bsRange = 3, bsRate = 2, bsDamage = 25, bsProjectileSpeed = Some 8,
                                  bsSplashRadius = None, bsSlowDuration = None, bsSlowAmount = None\<rparr>,
                   targetingStrategyOf = First\<rparr>
      | Cannon \<Rightarrow> \<lparr>defType = Cannon, baseCost = 40,
                   baseStatsOf = \<lparr>bsRange = 5 / 2, bsRate = 8 / 10, bsDamage = 80, bsProjectileSpeed = Some 4,
                                  bsSplashRadius = Some (3 / 2), bsSlowDuration = None, bsSlowAmount = None\<rparr>,
                   targetingStrategyOf = Strongest\<rparr>
      | Frost \<Rightarrow> \<lparr>defType = Frost, baseCost = 30,
                   baseStatsOf = \<lparr>bsRange = 5 / 2, bsRate = 3 / 2, bsDamage = 15, bsProjectileSpeed = Some 6,
                                  bsSplashRadius = None, bsSlowDuration = Some 3, bsSlowAmount = Some (1 / 2)\<rparr>,
                   targetingStrategyOf = First\<rparr>)"

text \<open>
  \<open>TOWER_DEFINITIONS\<close> is a plain object read at an arbitrary string. A key that is
  not one of its three own keys is looked up on \<open>Object.prototype\<close>, which defines
  twelve names (eleven functions and the accessor \<open>__proto__\<close>, all of them truthy and
  none with a \<open>baseCost\<close> or \<open>baseStats\<close> property); every other key gives
  \<open>undefined\<close>.
\<close>

datatype 'a property = Own 'a | Inherited | Missing

definition objectPrototypeKeys :: "string list" where
  "objectPrototypeKeys =
     [''constructor'', ''__defineGetter__'', ''__defineSetter__'', ''hasOwnProperty'',
      ''__lookupGetter__'', ''__lookupSetter__'', ''isPrototypeOf'', ''propertyIsEnumerable'',
      ''toString'', ''valueOf'', ''__proto__'', ''toLocaleString'']"

definition TOWER_DEFINITIONS :: "string \<Rightarrow> towerDefinition property" where
  "TOWER_DEFINITIONS key =
     (if key = ''arrow'' then Own (towerDefOf Arrow)
      else if key = ''cannon'' then Own (towerDefOf Cannon)
      else if key = ''frost'' then Own (towerDefOf Frost)
      else if key \<in> set objectPrototypeKeys then Inherited
      else Missing)"

definition MOB_DEFINITIONS :: "mobType \<Rightarrow> mobDefinition" where
  "MOB_DEFINITIONS k =
     (case k of
        Normal \<Rightarrow> \<lparr>mdType = Normal, mdHp = 50, mdSpeed = 1, mdArmor = 0, mdBounty = 10\<rparr>
      | Fast \<Rightarrow> \<lparr>mdType = Fast, mdHp = 30, mdSpeed = 2, mdArmor = 0, mdBounty = 15\<rparr>
      | Tank \<Rightarrow> \<lparr>mdType = Tank, mdHp = 150, mdSpeed = 1 / 2, mdArmor = 5, mdBounty = 25\<rparr>
      | Flying \<Rightarrow> \<lparr>mdType = Flying, mdHp = 80, mdSpeed = 3 / 2, mdArmor = 2, mdBounty = 30\<rparr>)"

section \<open>Array reads\<close>

text \<open>
  Reading a JavaScript array outside its bounds, or at a number that is not an integer,
  yields \<open>undefined\<close> (\<open>None\<close>); reading a property of \<open>undefined\<close> throws a
  \<open>TypeError\<close>, which the model returns as a value.
\<close>

datatype error = TypeError

definition at_nat :: "'a list \<Rightarrow> nat \<Rightarrow> 'a option" where
  "at_nat xs i = (if i < length xs then Some (xs ! i) else None)"

definition at_int :: "'a list \<Rightarrow> int \<Rightarrow> 'a option" where
  "at_int xs i = (if 0 \<le> i \<and> nat i < length xs then Some (xs ! nat i) else None)"

definition at_num :: "'a list \<Rightarrow> real \<Rightarrow> 'a option" where
  "at_num xs r = (if of_int \<lfloor>r\<rfloor> = r then at_int xs \<lfloor>r\<rfloor> else None)"

fun findIndex :: "('a \<Rightarrow> bool) \<Rightarrow> 'a list \<Rightarrow> nat option" where
  "findIndex P [] = None"
| "findIndex P (a # as) =
     (if P a then Some 0 else case findIndex P as of None \<Rightarrow> None | Some i \<Rightarrow> Some (Suc i))"

section \<open>Simulation (engine/sim.ts)\<close>

text \<open>
  \<open>Math.random()\<close> is an input of the model: \<open>rnd\<close> is the sequence of numbers the
  generator returns and the counter \<open>k\<close> tells how many have been drawn. Functions that
  draw return the advanced counter. \<open>console.log\<close> calls are left out.

  The source copies the \<open>Game\<close> object shallowly and then writes into its arrays and
  wave objects in place; the model returns the updated value, which is what the returned
  object shows.
\<close>

definition createMob :: "mobType \<Rightarrow> real vec2 \<Rightarrow> real \<Rightarrow> real \<Rightarrow> mob" where
  "createMob ty spawnPos currentTime r =
     (let mobDef = MOB_DEFINITIONS ty
      in \<lparr>mobId = MobIdent currentTime r,
          pos = gridToWorld (x_of spawnPos) (y_of spawnPos),
          hp = mdHp mobDef, maxHp = mdHp mobDef, speed = mdSpeed mobDef,
          armor = mdArmor mobDef, bounty = mdBounty mobDef, mobKind = mdType mobDef,
          slowUntil = None, slowMultiplier = None,
          pathProgress = 0, isDead = False, reachedEnd = False\<rparr>)"

definition createProjectile :: "tower \<Rightarrow> mob \<Rightarrow> real \<Rightarrow> real \<Rightarrow> projectile" where
  "createProjectile twr target currentTime r =
     \<lparr>pId = ProjectileIdent currentTime r,
      pPos = tile twr,
      pTargetId = mobId target,
      pSpeed = (case projectileSpeed twr of None \<Rightarrow> 5 | Some v \<Rightarrow> if v \<noteq> 0 then v else 5),
      pDamage = damage twr,
      pSplashRadius = splashRadius twr,
      isInstant = None,
      pTowerId = towerId twr,
      createdAt = currentTime\<rparr>"

definition setWave :: "game \<Rightarrow> wave \<Rightarrow> game" where
  "setWave g w = g\<lparr>waves := (waves g)[currentWave g := w]\<rparr>"

definition updateWaves :: "(nat \<Rightarrow> real) \<Rightarrow> nat \<Rightarrow> game \<Rightarrow> error + (game \<times> nat)" where
  "updateWaves rnd k g =
     (if currentWave g \<ge> totalWaves g then Inr (g, k)
      else (case at_nat (waves g) (currentWave g) of
        None \<Rightarrow> Inr (g, k)
      | Some w0 \<Rightarrow>
          if isComplete w0 then Inr (g, k)
          else
            let w1 = (if \<not> isActive w0
                      then w0\<lparr>isActive := True, startTime := Some (time g),
                              nextSpawnTime := Some (time g),
                              currentEntryIndex := 0, currentSpawnCount := 0\<rparr>
                      else w0)
            in (case at_nat (entries w1) (currentEntryIndex w1) of
                 None \<Rightarrow> Inr (setWave g w1, k)
               | Some entry \<Rightarrow>
                   if time g \<ge> delay entry \<and>
                      (case nextSpawnTime w1 of None \<Rightarrow> False | Some t \<Rightarrow> t \<noteq> 0 \<and> time g \<ge> t)
                   then
                     if currentSpawnCount w1 < count entry then
                       (case spawnPoints (gmap g) of
                          [] \<Rightarrow> Inl TypeError
                        | sp # _ \<Rightarrow>
                            let mob = createMob (entryKind entry) sp (time g) (rnd k);
                                w2 = w1\<lparr>currentSpawnCount := currentSpawnCount w1 + 1,
                                        nextSpawnTime := Some (time g + spacing entry)\<rparr>
                            in Inr (setWave (g\<lparr>mobs := mobs g @ [mob]\<rparr>) w2, Suc k))
                     else
                       let w2 = w1\<lparr>currentEntryIndex := currentEntryIndex w1 + 1,
                                   currentSpawnCount := 0\<rparr>
                       in if currentEntryIndex w2 \<ge> length (entries w2)
                          then Inr (setWave (g\<lparr>money := money g + (50 + waveId w2 * 10)\<rparr>)
                                      (w2\<lparr>isComplete := True\<rparr>), k)
                          else Inr (setWave g w2, k)
                   else Inr (setWave g w1, k))))"

definition moveMob :: "game \<Rightarrow> real \<Rightarrow> mob \<Rightarrow> error + mob" where
  "moveMob g dt mob0 =
     (if isDead mob0 \<or> reachedEnd mob0 then Inr mob0
      else
        let mob = cleanupExpiredEffects mob0 (time g);
            currentSpeed = updateMobSpeed mob (time g)
        in case paths (gmap g) of
             [] \<Rightarrow> Inr mob
           | path # _ \<Rightarrow>
               if length path > 1 then
                 let lastIndex = int (length path) - 1;
                     pathIndex = \<lfloor>pathProgress mob * of_int lastIndex\<rfloor>;
                     nextPathIndex = min (pathIndex + 1) lastIndex
                 in case (at_int path pathIndex, at_int path nextPathIndex) of
                      (Some currentPathPos, Some nextPathPos) \<Rightarrow>
                        let moveDistance = currentSpeed * dt;
                            pathSegmentLength = distance currentPathPos nextPathPos
                        in if pathSegmentLength > 0 then
                             let progressInSegment =
                                   pathProgress mob * of_int lastIndex - of_int pathIndex;
                                 newProgressInSegment =
                                   progressInSegment + moveDistance / pathSegmentLength
                             in if newProgressInSegment \<ge> 1 then
                                  let newPathIndex = min (nextPathIndex + 1) lastIndex;
                                      mob1 = mob\<lparr>pathProgress := of_int newPathIndex / of_int lastIndex\<rparr>
                                  in if newPathIndex \<ge> lastIndex
                                     then Inr (mob1\<lparr>reachedEnd := True, pos := basePosition (gmap g)\<rparr>)
                                     else (case at_int path newPathIndex of
                                             None \<Rightarrow> Inl TypeError
                                           | Some p \<Rightarrow> Inr (mob1\<lparr>pos := gridToWorld (x_of p) (y_of p)\<rparr>))
                                else
                                  Inr (mob\<lparr>pos := Vec2 (x_of currentPathPos
                                                + (x_of nextPathPos - x_of currentPathPos) * newProgressInSegment + 1 / 2)
                                               (y_of currentPathPos
                                                + (y_of nextPathPos - y_of currentPathPos) * newProgressInSegment + 1 / 2),
                                          pathProgress := (of_int pathIndex + newProgressInSegment) / of_int lastIndex\<rparr>)
                           else Inr mob
                    | _ \<Rightarrow> Inl TypeError
               else Inr mob)"

fun mobsLoop :: "game \<Rightarrow> real \<Rightarrow> mob list \<Rightarrow> error + mob list" where
  "mobsLoop g dt [] = Inr []"
| "mobsLoop g dt (m # ms) =
     (case moveMob g dt m of
        Inl e \<Rightarrow> Inl e
      | Inr m' \<Rightarrow> (case mobsLoop g dt ms of Inl e \<Rightarrow> Inl e | Inr ms' \<Rightarrow> Inr (m' # ms')))"

definition updateMobs :: "game \<Rightarrow> real \<Rightarrow> error + game" where
  "updateMobs g dt =
     (case mobsLoop g dt (mobs g) of Inl e \<Rightarrow> Inl e | Inr ms \<Rightarrow> Inr (g\<lparr>mobs := ms\<rparr>))"

text \<open>
  A tower fires when \<open>time - lastFiredAt >= 1 / rate\<close>; for rate \<open>0\<close> the interval is
  \<open>Infinity\<close> and the tower never fires.
\<close>

fun towersLoop ::
  "(nat \<Rightarrow> real) \<Rightarrow> real \<Rightarrow> mob list \<Rightarrow> tower list \<Rightarrow> nat \<Rightarrow> tower list \<times> projectile list \<times> nat" where
  "towersLoop rnd now ms [] k = ([], [], k)"
| "towersLoop rnd now ms (t # ts) k =
     (case findTarget t ms (targetingStrategyOf (towerDefOf (kind t))) of
        None \<Rightarrow> (case towersLoop rnd now ms ts k of (ts', ps, k') \<Rightarrow> (t # ts', ps, k'))
      | Some target \<Rightarrow>
          if rate t \<noteq> 0 \<and> now - lastFiredAt t \<ge> 1 / rate t
          then (case towersLoop rnd now ms ts (Suc k) of
                  (ts', ps, k') \<Rightarrow>
                    (t\<lparr>lastFiredAt := now, targetId := Some (mobId target)\<rparr> # ts',
                     createProjectile t target now (rnd k) # ps, k'))
          else (case towersLoop rnd now ms ts k of (ts', ps, k') \<Rightarrow> (t # ts', ps, k')))"

definition updateTowers :: "(nat \<Rightarrow> real) \<Rightarrow> nat \<Rightarrow> game \<Rightarrow> game \<times> nat" where
  "updateTowers rnd k g =
     (case towersLoop rnd (time g) (mobs g) (towers g) k of
        (ts, ps, k') \<Rightarrow> (g\<lparr>towers := ts, projectiles := projectiles g @ ps\<rparr>, k'))"

definition splashHit :: "game \<Rightarrow> mob \<times> real \<Rightarrow> game" where
  "splashHit g result =
     (case findIndex (\<lambda>m. mobId m = mobId (fst result)) (mobs g) of
        None \<Rightarrow> g
      | Some mobIndex \<Rightarrow>
          let hit = applyDamage (fst result) (snd result);
              g' = g\<lparr>mobs := (mobs g)[mobIndex := hit]\<rparr>
          in if isDead hit then g'\<lparr>money := money g' + bounty (fst result)\<rparr> else g')"

definition singleTargetHit :: "game \<Rightarrow> projectile \<Rightarrow> mob \<Rightarrow> tower \<Rightarrow> game" where
  "singleTargetHit g prj target twr =
     (let effectiveDamage = getEffectiveDamage (pDamage prj) (armor target)
      in case findIndex (\<lambda>m. mobId m = mobId target) (mobs g) of
           None \<Rightarrow> g
         | Some mobIndex \<Rightarrow>
             let hit = applyDamage target effectiveDamage;
                 hit' = (case (slowDuration twr, slowAmount twr) of
                           (Some duration, Some amount) \<Rightarrow>
                             if kind twr = Frost \<and> duration \<noteq> 0 \<and> amount \<noteq> 0
                             then applySlow hit duration amount (time g) else hit
                         | _ \<Rightarrow> hit);
                 g' = g\<lparr>mobs := (mobs g)[mobIndex := hit']\<rparr>
             in if isDead hit' then g'\<lparr>money := money g' + bounty target\<rparr> else g')"

definition applyProjectileHit :: "game \<Rightarrow> projectile \<Rightarrow> mob \<Rightarrow> tower \<Rightarrow> game" where
  "applyProjectileHit g prj target twr =
     (case pSplashRadius prj of
        Some radius \<Rightarrow>
          if radius \<noteq> 0 then
            let splashTargets = getMobsInSplashRadius (pPos prj) radius (mobs g);
                damageResults = applySplashDamage (pPos prj) radius (pDamage prj) splashTargets
            in foldl splashHit g damageResults
          else singleTargetHit g prj target twr
      | None \<Rightarrow> singleTargetHit g prj target twr)"

text \<open>
  The projectile loop runs from the last index down to \<open>0\<close>; \<open>splice(i, 1)\<close> removes
  index \<open>i\<close> and leaves the lower indices in place.
\<close>

definition splice1 :: "nat \<Rightarrow> 'a list \<Rightarrow> 'a list" where
  "splice1 i xs = take i xs @ drop (Suc i) xs"

definition projectileAt :: "real \<Rightarrow> nat \<Rightarrow> game \<Rightarrow> game" where
  "projectileAt dt i g =
     (case at_nat (projectiles g) i of
        None \<Rightarrow> g
      | Some prj \<Rightarrow>
          (case find (\<lambda>m. mobId m = pTargetId prj) (mobs g) of
             None \<Rightarrow> g\<lparr>projectiles := splice1 i (projectiles g)\<rparr>
           | Some target \<Rightarrow>
               if isDead target then g\<lparr>projectiles := splice1 i (projectiles g)\<rparr>
               else
                 let dirX = x_of (pos target) - x_of (pPos prj);
                     dirY = y_of (pos target) - y_of (pPos prj);
                     d = sqrt (dirX * dirX + dirY * dirY)
                 in if d \<le> 1 / 10 then
                      let g' = (case find (\<lambda>t. towerId t = pTowerId prj) (towers g) of
                                  None \<Rightarrow> g
                                | Some twr \<Rightarrow> applyProjectileHit g prj target twr)
                      in g'\<lparr>projectiles := splice1 i (projectiles g')\<rparr>
                    else
                      let moveDistance = pSpeed prj * dt;
                          moveRatio = moveDistance / d
                      in g\<lparr>projectiles := (projectiles g)
                              [i := prj\<lparr>pPos := Vec2 (x_of (pPos prj) + dirX * moveRatio)
                                                    (y_of (pPos prj) + dirY * moveRatio)\<rparr>]\<rparr>))"

fun projectilesLoop :: "real \<Rightarrow> nat \<Rightarrow> game \<Rightarrow> game" where
  "projectilesLoop dt 0 g = g"
| "projectilesLoop dt (Suc i) g = projectilesLoop dt i (projectileAt dt i g)"

definition updateProjectiles :: "game \<Rightarrow> real \<Rightarrow> game" where
  "updateProjectiles g dt = projectilesLoop dt (length (projectiles g)) g"

definition cleanupEntities :: "game \<Rightarrow> game" where
  "cleanupEntities g =
     (let maxProjectileAge = 5
      in g\<lparr>mobs := filter (\<lambda>m. \<not> isDead m) (mobs g),
           projectiles := filter (\<lambda>p. time g - createdAt p < maxProjectileAge) (projectiles g)\<rparr>)"

definition checkGameState :: "game \<Rightarrow> game" where
  "checkGameState g =
     (let mobsReachedEnd = filter reachedEnd (mobs g);
          g1 = g\<lparr>lives := lives g - of_nat (length mobsReachedEnd)\<rparr>;
          g2 = g1\<lparr>mobs := filter (\<lambda>m. \<not> reachedEnd m) (mobs g1)\<rparr>;
          g3 = (if lives g2 \<le> 0 then g2\<lparr>state := GameOver\<rparr> else g2);
          g4 = (case at_nat (waves g3) (currentWave g3) of
                  None \<Rightarrow> g3
                | Some w \<Rightarrow>
                    if isComplete w \<and> length (mobs g3) = 0 \<and> length (projectiles g3) = 0
                       \<and> bonusGiven w \<noteq> Some True
                    then setWave (g3\<lparr>money := money g3 + (25 + waveId w * 5)\<rparr>)
                           (w\<lparr>bonusGiven := Some True\<rparr>)
                    else g3)
      in if currentWave g4 \<ge> totalWaves g4 \<and> length (mobs g4) = 0 \<and> length (projectiles g4) = 0
         then g4\<lparr>state := Victory\<rparr> else g4)"

text \<open>
  The state a tick has reached when it evaluates the win and lose conditions: the five
  update stages of \<open>advanceTick\<close> before \<open>checkGameState\<close>.
\<close>

definition stateAtEvaluation :: "(nat \<Rightarrow> real) \<Rightarrow> nat \<Rightarrow> game \<Rightarrow> real \<Rightarrow> error + (game \<times> nat)" where
  "stateAtEvaluation rnd k g dt =
     (case updateWaves rnd k (g\<lparr>time := time g + dt, tickCount := tickCount g + 1\<rparr>) of
        Inl e \<Rightarrow> Inl e
      | Inr (g1, k1) \<Rightarrow>
          (case updateMobs g1 dt of
             Inl e \<Rightarrow> Inl e
           | Inr g2 \<Rightarrow>
               (case updateTowers rnd k1 g2 of
                  (g3, k3) \<Rightarrow> Inr (cleanupEntities (updateProjectiles g3 dt), k3))))"

definition advanceTick :: "(nat \<Rightarrow> real) \<Rightarrow> nat \<Rightarrow> game \<Rightarrow> real \<Rightarrow> error + (game \<times> nat)" where
  "advanceTick rnd k g dt =
     (case stateAtEvaluation rnd k g dt of
        Inl e \<Rightarrow> Inl e
      | Inr (g5, k5) \<Rightarrow> Inr (checkGameState g5, k5))"

definition isBuildable :: "gameMap \<Rightarrow> real vec2 \<Rightarrow> error + bool" where
  "isBuildable m p =
     (if \<not> isValidVec p then Inr False
      else case at_num (tiles m) (y_of p) of
             None \<Rightarrow> Inl TypeError
           | Some row \<Rightarrow> Inr (at_num row (x_of p) = Some Buildable))"

definition newTower :: "towerDefinition \<Rightarrow> real vec2 \<Rightarrow> real \<Rightarrow> real \<Rightarrow> tower" where
  "newTower towerDef p now r =
     \<lparr>towerId = TowerIdent now r,
      tile = p,
      towerRange = bsRange (baseStatsOf towerDef),
      rate = bsRate (baseStatsOf towerDef),
      damage = bsDamage (baseStatsOf towerDef),
      projectileSpeed = bsProjectileSpeed (baseStatsOf towerDef),
      lastFiredAt = 0,
      kind = defType towerDef,
      tier = 1,
      cost = baseCost towerDef,
      targetId = None,
      splashRadius = bsSplashRadius (baseStatsOf towerDef),
      slowDuration = bsSlowDuration (baseStatsOf towerDef),
      slowAmount = bsSlowAmount (baseStatsOf towerDef)\<rparr>"

text \<open>
  With an inherited value for \<open>towerDef\<close> the guard \<open>!towerDef\<close> is false and
  \<open>money < towerDef.baseCost\<close> compares with \<open>undefined\<close>, which is false as well; the
  two position checks follow, and then the tower literal reads
  \<open>towerDef.baseStats.range\<close>, a property of \<open>undefined\<close>, which throws.
\<close>

definition placeTower ::
  "(nat \<Rightarrow> real) \<Rightarrow> nat \<Rightarrow> game \<Rightarrow> real vec2 \<Rightarrow> string \<Rightarrow> error + (game \<times> nat)" where
  "placeTower rnd k g p towerType =
     (case TOWER_DEFINITIONS towerType of
        Missing \<Rightarrow> Inr (g, k)
      | Inherited \<Rightarrow>
          (case isBuildable (gmap g) p of
             Inl e \<Rightarrow> Inl e
           | Inr buildable \<Rightarrow>
               if \<not> buildable then Inr (g, k)
               else (case find (\<lambda>t. x_of (tile t) = x_of p \<and> y_of (tile t) = y_of p) (towers g) of
                       Some existingTower \<Rightarrow> Inr (g, k)
                     | None \<Rightarrow> Inl TypeError))
      | Own towerDef \<Rightarrow>
          if money g < baseCost towerDef then Inr (g, k)
          else (case isBuildable (gmap g) p of
                  Inl e \<Rightarrow> Inl e
                | Inr buildable \<Rightarrow>
                    if \<not> buildable then Inr (g, k)
                    else (case find (\<lambda>t. x_of (tile t) = x_of p \<and> y_of (tile t) = y_of p) (towers g) of
                            Some existingTower \<Rightarrow> Inr (g, k)
                          | None \<Rightarrow>
                              Inr (g\<lparr>towers := towers g @ [newTower towerDef p (time g) (rnd k)],
                                     money := money g - baseCost towerDef\<rparr>, Suc k))))"

section \<open>The driver (state/store.ts)\<close>

record store =
  storeGame :: game
  isRunning :: bool
  lastFrameTime :: real
  accumulator :: real

text \<open>
  \<open>update\<close> tests the lifecycle state once, before its loop; the loop itself runs a
  tick for every whole tick length in the accumulated time and does not look at the state
  again. The tick length is the exact \<open>1000 / 60\<close> here and the subtraction is exact;
  the program's double \<open>16.666666666666668\<close> lies just above it, so for an accumulated
  time within rounding distance of a whole number of ticks the program's number of ticks
  can differ by one from the model's (for 50 ms the program runs two ticks, the model
  three).
\<close>

function tickLoop ::
  "(nat \<Rightarrow> real) \<Rightarrow> nat \<Rightarrow> game \<Rightarrow> real \<Rightarrow> error + (game \<times> nat \<times> real)" where
  "tickLoop rnd k g remainingTime =
     (if remainingTime \<ge> 1000 / 60
      then (case advanceTick rnd k g (1000 / 60) of
              Inl e \<Rightarrow> Inl e
            | Inr (g', k') \<Rightarrow> tickLoop rnd k' g' (remainingTime - 1000 / 60))
      else Inr (g, k, remainingTime))"
  by pat_completeness auto
termination
proof (relation "measure (\<lambda>(rnd, k, g, r). nat \<lceil>r / (1000 / 60)\<rceil>)", goal_cases)
  case 1
  show ?case by simp
next
  case (2 rnd k g remainingTime x2 x y)
  have "\<lceil>(remainingTime - 1000 / 60) / (1000 / 60)\<rceil> = \<lceil>remainingTime / (1000 / 60)\<rceil> - 1"
    by (simp add: diff_divide_distrib)
  moreover have "1 \<le> \<lceil>remainingTime / (1000 / 60)\<rceil>"
    using 2(1) by (simp add: le_ceiling_iff)
  ultimately show ?case by simp
qed

definition update :: "(nat \<Rightarrow> real) \<Rightarrow> nat \<Rightarrow> store \<Rightarrow> real \<Rightarrow> error + (store \<times> nat)" where
  "update rnd k st deltaTime =
     (if \<not> isRunning st \<or> state (storeGame st) \<noteq> Playing then Inr (st, k)
      else case tickLoop rnd k (storeGame st) (accumulator st + deltaTime) of
             Inl e \<Rightarrow> Inl e
           | Inr (newGame, k', remainingTime) \<Rightarrow>
               Inr (st\<lparr>storeGame := newGame, accumulator := remainingTime\<rparr>, k'))"

section \<open>Pathfinding (engine/grid.ts)\<close>

text \<open>
  Grid cells are positions with integer coordinates. A node key \<open>`${x},${y}`\<close>
  identifies the cell, so keys are compared as cells. The \<open>cameFrom\<close> map of the source
  is written but never read and is left out. A parent is always a node that has left the
  open set, and only nodes of the open set are ever updated in place, so a node can hold
  its parent by value.
\<close>

datatype anode = ANode (npos: "int vec2") (ng: int) (nh: int) (nparent: "anode option")

definition nf :: "anode \<Rightarrow> int" where
  "nf n = ng n + nh n"

definition getNeighbors :: "int vec2 \<Rightarrow> int vec2 list" where
  "getNeighbors p =
     filter isValidVec
       [Vec2 (x_of p + 0) (y_of p + (- 1)),
        Vec2 (x_of p + 1) (y_of p + 0),
        Vec2 (x_of p + 0) (y_of p + 1),
        Vec2 (x_of p + (- 1)) (y_of p + 0)]"

definition isWalkable :: "gameMap \<Rightarrow> int vec2 \<Rightarrow> error + bool" where
  "isWalkable m p =
     (if \<not> isValidVec p then Inr False
      else case at_int (tiles m) (y_of p) of
             None \<Rightarrow> Inl TypeError
           | Some row \<Rightarrow>
               Inr (case at_int row (x_of p) of
                      None \<Rightarrow> False
                    | Some t \<Rightarrow> t = Path \<or> t = Buildable))"

definition isGoal :: "int vec2 \<Rightarrow> int vec2 \<Rightarrow> bool" where
  "isGoal p e = (x_of p = x_of e \<and> y_of p = y_of e)"

definition heuristic :: "int vec2 \<Rightarrow> int vec2 \<Rightarrow> int" where
  "heuristic a b = \<bar>x_of a - x_of b\<bar> + \<bar>y_of a - y_of b\<bar>"

fun reconstructPath :: "anode \<Rightarrow> int vec2 list" where
  "reconstructPath (ANode p g h None) = [p]"
| "reconstructPath (ANode p g h (Some parent)) = reconstructPath parent @ [p]"

text \<open>The index of the first node of lowest \<open>f\<close>: the scan moves on a strictly lower \<open>f\<close> only.\<close>

definition lowestIndex :: "anode list \<Rightarrow> nat" where
  "lowestIndex openSet =
     fold (\<lambda>i currentIndex. if nf (openSet ! i) < nf (openSet ! currentIndex) then i else currentIndex)
       [1..<length openSet] 0"

definition relax ::
  "gameMap \<Rightarrow> int vec2 \<Rightarrow> anode \<Rightarrow> int vec2 set \<Rightarrow> anode list \<Rightarrow> int vec2 \<Rightarrow> error + anode list" where
  "relax m e current closedSet openSet neighborPos =
     (if neighborPos \<in> closedSet then Inr openSet
      else case isWalkable m neighborPos of
             Inl er \<Rightarrow> Inl er
           | Inr walkable \<Rightarrow>
               if \<not> walkable then Inr openSet
               else
                 let tentativeG = ng current + 1
                 in (case findIndex (\<lambda>n. npos n = neighborPos) openSet of
                       None \<Rightarrow>
                         Inr (openSet @ [ANode neighborPos tentativeG (heuristic neighborPos e) (Some current)])
                     | Some i \<Rightarrow>
                         if tentativeG < ng (openSet ! i)
                         then Inr (openSet[i := ANode (npos (openSet ! i)) tentativeG (nh (openSet ! i)) (Some current)])
                         else Inr openSet))"

fun relaxAll ::
  "gameMap \<Rightarrow> int vec2 \<Rightarrow> anode \<Rightarrow> int vec2 set \<Rightarrow> anode list \<Rightarrow> int vec2 list \<Rightarrow> error + anode list" where
  "relaxAll m e current closedSet openSet [] = Inr openSet"
| "relaxAll m e current closedSet openSet (nb # nbs) =
     (case relax m e current closedSet openSet nb of
        Inl er \<Rightarrow> Inl er
      | Inr openSet' \<Rightarrow> relaxAll m e current closedSet openSet' nbs)"

text \<open>
  The state of the search loop: still running with its open and closed sets, or left
  through \<open>return\<close> or an exception.
\<close>

datatype search = Running "anode list" "int vec2 set" | Finished "error + int vec2 list"

fun searching :: "search \<Rightarrow> bool" where
  "searching (Running openSet closedSet) = (length openSet > 0)"
| "searching (Finished r) = False"

fun searchStep :: "gameMap \<Rightarrow> int vec2 \<Rightarrow> search \<Rightarrow> search" where
  "searchStep m e (Finished r) = Finished r"
| "searchStep m e (Running openSet closedSet) =
     (let currentIndex = lowestIndex openSet;
          current = openSet ! currentIndex;
          openSet' = splice1 currentIndex openSet
      in if isGoal (npos current) e then Finished (Inr (reconstructPath current))
         else
           let closedSet' = insert (npos current) closedSet
           in (case relaxAll m e current closedSet' openSet' (getNeighbors (npos current)) of
                 Inl er \<Rightarrow> Finished (Inl er)
               | Inr openSet'' \<Rightarrow> Running openSet'' closedSet'))"

text \<open>\<open>findPath\<close> is \<open>None\<close> when the loop does not terminate.\<close>

definition findPath :: "gameMap \<Rightarrow> int vec2 \<Rightarrow> int vec2 \<Rightarrow> (error + int vec2 list) option" where
  "findPath m start e =
     (if \<not> isValidVec start \<or> \<not> isValidVec e then Some (Inr [])
      else case while_option searching (searchStep m e)
                  (Running [ANode start 0 (heuristic start e) None] {}) of
             None \<Rightarrow> None
           | Some (Finished r) \<Rightarrow> Some r
           | Some (Running openSet closedSet) \<Rightarrow> Some (Inr []))"

text \<open>
  Routes, for stating what \<open>findPath\<close> returns. In a \<open>route\<close> consecutive cells are
  4-adjacent and every cell entered is walkable; nothing is asked of the first cell. A
  \<open>walkablePath\<close> is a path of walkable cells: every cell, the first included, is walkable.
\<close>

definition adjacent4 :: "int vec2 \<Rightarrow> int vec2 \<Rightarrow> bool" where
  "adjacent4 p q = (\<bar>x_of p - x_of q\<bar> + \<bar>y_of p - y_of q\<bar> = 1)"

fun stepsOK :: "gameMap \<Rightarrow> int vec2 list \<Rightarrow> bool" where
  "stepsOK m [] = True"
| "stepsOK m [p] = True"
| "stepsOK m (p # q # r) = (adjacent4 p q \<and> isWalkable m q = Inr True \<and> stepsOK m (q # r))"

definition route :: "gameMap \<Rightarrow> int vec2 \<Rightarrow> int vec2 \<Rightarrow> int vec2 list \<Rightarrow> bool" where
  "route m s e q = (q \<noteq> [] \<and> hd q = s \<and> last q = e \<and> stepsOK m q)"

definition walkablePath :: "gameMap \<Rightarrow> int vec2 \<Rightarrow> int vec2 \<Rightarrow> int vec2 list \<Rightarrow> bool" where
  "walkablePath m s e q =
     (q \<noteq> [] \<and> hd q = s \<and> last q = e
      \<and> list_all (\<lambda>c. isWalkable m c = Inr True) q \<and> successively adjacent4 q)"

text \<open>
  Notions for reasoning about the search. A node is good when the cells on its parent
  chain form a route from the start and its \<open>g\<close> is the number of steps of that route.
  A cell is covered up to a bound when it is closed or the open set holds a node for it
  with \<open>g\<close> at most the bound. The loop invariant fixes, for each closed cell \<open>u\<close>, the
  \<open>g\<close> it was closed with (\<open>gc u\<close>): no route to \<open>u\<close> is shorter, and the walkable
  neighbours of \<open>u\<close> are covered up to \<open>gc u + 1\<close>.
\<close>

definition validCells :: "int vec2 set" where
  "validCells = {p. isValidVec p}"

definition goodNode :: "gameMap \<Rightarrow> int vec2 \<Rightarrow> int vec2 \<Rightarrow> anode \<Rightarrow> bool" where
  "goodNode m s e n =
     (hd (reconstructPath n) = s \<and> stepsOK m (reconstructPath n)
      \<and> ng n = int (length (reconstructPath n)) - 1
      \<and> nh n = heuristic (npos n) e \<and> isValidVec (npos n))"

definition covered :: "anode list \<Rightarrow> int vec2 set \<Rightarrow> int vec2 \<Rightarrow> int \<Rightarrow> bool" where
  "covered openSet closedSet v b =
     (v \<in> closedSet \<or> (\<exists>n\<in>set openSet. npos n = v \<and> ng n \<le> b))"

definition openGood :: "gameMap \<Rightarrow> int vec2 \<Rightarrow> int vec2 \<Rightarrow> anode list \<Rightarrow> int vec2 set \<Rightarrow> bool" where
  "openGood m s e openSet closedSet =
     ((\<forall>n\<in>set openSet. goodNode m s e n \<and> npos n \<notin> closedSet) \<and> distinct (map npos openSet))"

definition searchInv ::
  "gameMap \<Rightarrow> int vec2 \<Rightarrow> int vec2 \<Rightarrow> (int vec2 \<Rightarrow> int) \<Rightarrow> anode list \<Rightarrow> int vec2 set \<Rightarrow> bool" where
  "searchInv m s e gc openSet closedSet =
     (openGood m s e openSet closedSet
      \<and> closedSet \<subseteq> validCells
      \<and> covered openSet closedSet s 0
      \<and> (\<forall>u\<in>closedSet. \<forall>v. adjacent4 u v \<and> isWalkable m v = Inr True \<longrightarrow>
            covered openSet closedSet v (gc u + 1))
      \<and> (\<forall>u\<in>closedSet. \<forall>q. route m s u q \<longrightarrow> gc u \<le> int (length q) - 1)
      \<and> e \<notin> closedSet)"

definition searchGood :: "gameMap \<Rightarrow> int vec2 \<Rightarrow> int vec2 \<Rightarrow> search \<Rightarrow> bool" where
  "searchGood m s e st =
     (case st of
        Running openSet closedSet \<Rightarrow> \<exists>gc. searchInv m s e gc openSet closedSet
      | Finished r \<Rightarrow>
          \<exists>p. r = Inr p \<and> route m s e p \<and> (\<forall>q. route m s e q \<longrightarrow> length p \<le> length q))"

fun searchMeasure :: "search \<Rightarrow> nat" where
  "searchMeasure (Running openSet closedSet) = Suc (card (validCells - closedSet))"
| "searchMeasure (Finished r) = 0"

section \<open>Example inputs\<close>

text \<open>
  The tower and the first mob of the targeting unit test; \<open>mobB\<close> is the test's second
  mob moved into the tower's range.
\<close>

definition exampleTower :: tower where
  "exampleTower = \<lparr>towerId = Named ''tower1'', tile = Vec2 5 5, towerRange = 3, rate = 1,
                    damage = 25, projectileSpeed = None, lastFiredAt = 0, kind = Arrow,
                    tier = 1, cost = 50, targetId = None, splashRadius = None,
                    slowDuration = None, slowAmount = None\<rparr>"

definition mobA :: mob where
  "mobA = \<lparr>mobId = Named ''mob1'', pos = Vec2 6 6, hp = 50, maxHp = 50, speed = 1, armor = 0,
            bounty = 10, mobKind = Normal, slowUntil = None, slowMultiplier = None,
            pathProgress = 1 / 2, isDead = False, reachedEnd = False\<rparr>"

definition mobB :: mob where
  "mobB = mobA\<lparr>mobId := Named ''mob2'', pos := Vec2 5 6, pathProgress := 3 / 10\<rparr>"

text \<open>
  The map that \<open>createDefaultMap\<close> builds: 20 by 15 tiles, the path along row 7, four
  blocked tiles, and the straight route from the spawn point to the base.
\<close>

definition exampleTiles :: "tileType list list" where
  "exampleTiles =
     (replicate 15 (replicate 20 Buildable))
       [7 := replicate 20 Path,
        5 := (replicate 20 Buildable)[5 := Blocked, 6 := Blocked],
        9 := (replicate 20 Buildable)[8 := Blocked, 9 := Blocked]]"

definition examplePath :: "real vec2 list" where
  "examplePath =
     [Vec2 0 7, Vec2 1 7, Vec2 2 7, Vec2 3 7, Vec2 4 7, Vec2 5 7, Vec2 6 7, Vec2 7 7,
      Vec2 8 7, Vec2 9 7, Vec2 10 7, Vec2 11 7, Vec2 12 7, Vec2 13 7, Vec2 14 7, Vec2 15 7,
      Vec2 16 7, Vec2 17 7, Vec2 18 7, Vec2 19 7]"

definition exampleMap :: gameMap where
  "exampleMap = \<lparr>width = 20, height = 15, tiles = exampleTiles, paths = [examplePath],
                  spawnPoints = [Vec2 0 7], basePosition = Vec2 19 7\<rparr>"

text \<open>The first wave of \<open>WAVE_DEFINITIONS\<close>, as \<open>createInitialGame\<close> initialises it.\<close>

definition exampleWave :: wave where
  "exampleWave = \<lparr>waveId = 1,
                   entries = [\<lparr>delay = 0, entryKind = Normal, count = 10, spacing = 1\<rparr>],
                   isActive = False, isComplete = False, startTime = None, nextSpawnTime = None,
                   currentEntryIndex = 0, currentSpawnCount = 0, bonusGiven = None\<rparr>"

text \<open>The initial game with that single wave, already in state \<open>playing\<close>.\<close>

definition exampleGame :: game where
  "exampleGame = \<lparr>time = 0, state = Playing, gameSpeed = 1 / 2, mobs = [], towers = [],
                   projectiles = [], waves = [exampleWave], currentWave = 0, totalWaves = 1,
                   money = 200, lives = 100, score = 0, gmap = exampleMap,
                   selectedTower = None, hoveredTile = None, buildMode = None,
                   lastTickTime = 0, frameTime = 0, tickCount = 0\<rparr>"

text \<open>A wave whose only entry is due five seconds after the wave starts, in a game at time 99.\<close>

definition delayedWave :: wave where
  "delayedWave = exampleWave\<lparr>entries := [\<lparr>delay = 5, entryKind = Normal, count = 1, spacing = 1\<rparr>]\<rparr>"

definition lateGame :: game where
  "lateGame = exampleGame\<lparr>time := 99, waves := [delayedWave]\<rparr>"

text \<open>A game past its last wave with one mob on the last segment of the path.\<close>

definition lastSegmentMob :: mob where
  "lastSegmentMob = mobA\<lparr>pos := Vec2 (37 / 2) (15 / 2), pathProgress := 18 / 19\<rparr>"

definition endGame :: game where
  "endGame = exampleGame\<lparr>mobs := [lastSegmentMob], currentWave := 1\<rparr>"

text \<open>A game that is over.\<close>

definition overGame :: game where
  "overGame = exampleGame\<lparr>state := GameOver, lives := 0\<rparr>"

text \<open>
  The initial game down to its last life, with one mob on the second last segment of the
  path, and a running store that holds it.
\<close>

definition nearBaseMob :: mob where
  "nearBaseMob = mobA\<lparr>pos := Vec2 (293 / 16) (15 / 2), pathProgress := 15 / 16\<rparr>"

definition lastLifeGame :: game where
  "lastLifeGame = exampleGame\<lparr>mobs := [nearBaseMob], lives := 1\<rparr>"

definition lastLifeStore :: store where
  "lastLifeStore = \<lparr>storeGame = lastLifeGame, isRunning = True, lastFrameTime = 0, accumulator = 0\<rparr>"

text \<open>
  More mobs around the example tower at \<open>(5, 5)\<close> with range \<open>3\<close>: one at distance
  \<open>sqrt 8\<close>, one at distance \<open>sqrt 10\<close>, one where the unit test has its second mob,
  at \<open>(10, 10)\<close>, a dead one and one that has reached the end next to the tower, and
  one whose path progress is the initial bound of the scan for strategy \<open>first\<close>.
\<close>

definition cornerMob :: mob where
  "cornerMob = mobA\<lparr>mobId := Named ''mob3'', pos := Vec2 7 7\<rparr>"

definition beyondMob :: mob where
  "beyondMob = mobA\<lparr>mobId := Named ''mob4'', pos := Vec2 8 6, pathProgress := 9 / 10\<rparr>"

definition farMob :: mob where
  "farMob = mobA\<lparr>mobId := Named ''mob5'', pos := Vec2 10 10, pathProgress := 3 / 10\<rparr>"

definition deadMob :: mob where
  "deadMob = mobA\<lparr>mobId := Named ''mob6'', pos := Vec2 5 6, pathProgress := 4 / 5, isDead := True\<rparr>"

definition goneMob :: mob where
  "goneMob = mobA\<lparr>mobId := Named ''mob7'', pos := Vec2 5 6, pathProgress := 19 / 20,
                  reachedEnd := True\<rparr>"

definition exampleMobs :: "mob list" where
  "exampleMobs = [mobB, mobA, beyondMob, cornerMob, farMob, deadMob, goneMob]"

definition sentinelMob :: mob where
  "sentinelMob = mobB\<lparr>pathProgress := - 1\<rparr>"

text \<open>
  Mobs around a splash centre at \<open>(5, 5)\<close>: at distances \<open>0\<close>, \<open>3 / 2\<close>, \<open>5 / 4\<close>
  (off both axes), \<open>5 / 2\<close> (off both axes) and \<open>sqrt 8\<close>, a dead one and one that has
  reached the end.
\<close>

definition splashMobs :: "mob list" where
  "splashMobs =
     [mobA\<lparr>pos := Vec2 5 5\<rparr>, mobA\<lparr>pos := Vec2 5 (13 / 2)\<rparr>, mobA\<lparr>pos := Vec2 (23 / 4) 6\<rparr>,
      mobA\<lparr>pos := Vec2 (13 / 2) 7\<rparr>, mobA\<lparr>pos := Vec2 7 7\<rparr>,
      mobA\<lparr>pos := Vec2 5 5, isDead := True\<rparr>, mobA\<lparr>pos := Vec2 5 5, reachedEnd := True\<rparr>]"

section \<open>Rounding to a double\<close>

text \<open>
  Facts about \<open>toDouble\<close>: how to compute it for a number of known binary exponent, that
  it fixes the doubles, that it is odd and that it is monotone.
\<close>

lemma roundEven_of_int: "roundEven (of_int z) = z"
  by (simp add: roundEven_def)

lemma toDouble_exponent:
  assumes "x \<noteq> 0" and "- 1022 \<le> e"
    and "2 powr of_int e \<le> \<bar>x\<bar>" and "\<bar>x\<bar> < 2 powr of_int (e + 1)"
  shows "toDouble x = of_int (roundEven (x / 2 powr (of_int e - 52))) * 2 powr (of_int e - 52)"
proof -
  have "\<lfloor>log 2 \<bar>x\<bar>\<rfloor> = e"
    using assms by (subst floor_log_eq_powr_iff) simp_all
  then show ?thesis
    using assms(1,2) by (simp add: toDouble_def Let_def max_def)
qed

lemma quantum_power:
  assumes "int j = 52 - e - int k"
  shows "2 powr (of_int e - 52) = 1 / ((2::real) ^ j * 2 ^ k)"
proof -
  have "2 powr (of_int e - 52) * ((2::real) ^ j * 2 ^ k)
          = 2 powr (of_int e - 52) * (2 powr real j * 2 powr real k)"
    by (simp add: powr_realpow)
  also have "\<dots> = 2 powr (of_int e - 52 + real j + real k)"
    by (simp add: powr_add)
  also have "of_int e - 52 + real j + real k = (0::real)"
  proof -
    have "real j = of_int (int j)" by simp
    also have "\<dots> = 52 - of_int e - real k" unfolding assms by simp
    finally show ?thesis by simp
  qed
  finally have "2 powr (of_int e - 52) * ((2::real) ^ j * 2 ^ k) = 1" by simp
  then show ?thesis by (simp add: field_simps)
qed

lemma toDouble_dyadic:
  assumes m: "\<bar>m\<bar> < 2 ^ 53" and k: "k \<le> 1074"
  shows "toDouble (of_int m / 2 ^ k) = of_int m / 2 ^ k"
proof (cases "m = 0")
  case True
  then show ?thesis by (simp add: toDouble_def)
next
  case False
  define x :: real where "x = of_int m / 2 ^ k"
  define e where "e = max \<lfloor>log 2 \<bar>x\<bar>\<rfloor> (- 1022)"
  have x0: "x \<noteq> 0" "0 < \<bar>x\<bar>" using False by (simp_all add: x_def)
  have "\<bar>x\<bar> = \<bar>of_int m\<bar> / 2 ^ k" by (simp add: x_def)
  also have "\<dots> < 2 ^ 53 / 2 ^ k"
  proof -
    have "\<bar>real_of_int m\<bar> < 2 ^ 53"
      using m by (metis of_int_abs of_int_less_numeral_power_cancel_iff)
    then show ?thesis by (simp add: divide_strict_right_mono)
  qed
  also have "\<dots> = 2 powr (53 - real k)"
    by (simp add: powr_diff powr_realpow [symmetric] del: powr_numeral)
  finally have "log 2 \<bar>x\<bar> < 53 - real k"
    using x0 by (simp add: log_less_iff)
  then have "\<lfloor>log 2 \<bar>x\<bar>\<rfloor> < 53 - int k"
    by (simp add: floor_less_iff)
  then have le: "e \<le> 52 - int k"
    using k by (simp add: e_def)
  define j where "j = nat (52 - e - int k)"
  have j: "int j = 52 - e - int k" using le by (simp add: j_def)
  have q: "2 powr (of_int e - 52) = 1 / ((2::real) ^ j * 2 ^ k)"
    by (rule quantum_power [OF j])
  have "x / 2 powr (of_int e - 52) = of_int (m * 2 ^ j)"
    by (simp add: q x_def)
  then have "roundEven (x / 2 powr (of_int e - 52)) = m * 2 ^ j"
    by (simp only: roundEven_of_int)
  then have "toDouble x = of_int (m * 2 ^ j) * 2 powr (of_int e - 52)"
    using x0 by (simp add: toDouble_def Let_def e_def)
  also have "\<dots> = x" by (simp add: q x_def)
  finally show ?thesis by (simp add: x_def)
qed

lemma toDouble_above_one:
  assumes "2 ^ n \<le> \<bar>x\<bar>" and "\<bar>x\<bar> < 2 * 2 ^ n" and "n \<le> 52"
  shows "toDouble x = of_int (roundEven (x * 2 ^ (52 - n))) / 2 ^ (52 - n)"
proof -
  have x: "x \<noteq> 0"
    using assms(1) by (metis abs_zero not_le zero_less_numeral zero_less_power)
  have q: "2 powr (real n - 52) = 1 / (2::real) ^ (52 - n)"
    using quantum_power [of "52 - n" "int n" 0] assms(3) by simp
  have "toDouble x = of_int (roundEven (x / 2 powr (of_int (int n) - 52))) * 2 powr (of_int (int n) - 52)"
    using x assms(1,2) by (intro toDouble_exponent) (simp_all add: powr_realpow powr_add)
  then show ?thesis by (simp add: q)
qed

lemma toDouble_below_two:
  assumes "1 \<le> \<bar>x\<bar> * 2 ^ n" and "\<bar>x\<bar> * 2 ^ n < 2" and "n \<le> 1022"
  shows "toDouble x = of_int (roundEven (x * 2 ^ (52 + n))) / 2 ^ (52 + n)"
proof -
  have x: "x \<noteq> 0"
    using assms(1) by auto
  have q: "2 powr (- real n - 52) = 1 / (2::real) ^ (52 + n)"
    using quantum_power [of "52 + n" "- int n" 0] by simp
  have p: "2 powr (- real n) = 1 / (2::real) ^ n"
    by (simp add: powr_minus_divide powr_realpow)
  have "toDouble x = of_int (roundEven (x / 2 powr (of_int (- int n) - 52))) * 2 powr (of_int (- int n) - 52)"
  proof (intro toDouble_exponent)
    show "x \<noteq> 0" by (rule x)
    show "- 1022 \<le> - int n" using assms(3) by simp
    show "2 powr real_of_int (- int n) \<le> \<bar>x\<bar>"
      using assms(1) by (simp add: p field_simps)
    have r: "2 powr real_of_int (- int n + 1) = 2 / (2::real) ^ n"
      by (simp add: powr_diff powr_realpow)
    show "\<bar>x\<bar> < 2 powr real_of_int (- int n + 1)"
      unfolding r using assms(2) by (simp add: field_simps)
  qed
  then show ?thesis by (simp add: q)
qed

lemma roundEven_floor: "\<lfloor>x\<rfloor> \<le> roundEven x \<and> roundEven x \<le> \<lfloor>x\<rfloor> + 1"
  by (simp add: roundEven_def Let_def)

lemma roundEven_mono:
  assumes "x \<le> y"
  shows "roundEven x \<le> roundEven y"
proof (cases "\<lfloor>x\<rfloor> = \<lfloor>y\<rfloor>")
  case True
  have "x - of_int \<lfloor>y\<rfloor> \<le> y - of_int \<lfloor>y\<rfloor>" using assms by simp
  then show ?thesis
    unfolding roundEven_def Let_def True by auto
next
  case False
  have "\<lfloor>x\<rfloor> \<le> \<lfloor>y\<rfloor>" using assms by (rule floor_mono)
  with False have "\<lfloor>x\<rfloor> + 1 \<le> \<lfloor>y\<rfloor>" by simp
  with roundEven_floor [of x] roundEven_floor [of y] show ?thesis by linarith
qed

lemma roundEven_uminus: "roundEven (- x) = - roundEven x"
proof (cases "of_int \<lfloor>x\<rfloor> = x")
  case True
  have "roundEven (- of_int \<lfloor>x\<rfloor>) = - roundEven (of_int \<lfloor>x\<rfloor>)"
    unfolding of_int_minus [symmetric] roundEven_of_int ..
  then show ?thesis unfolding True .
next
  case False
  have lt: "of_int \<lfloor>x\<rfloor> < x"
    by (metis False of_int_floor_le order_le_less)
  have ub: "x < of_int \<lfloor>x\<rfloor> + 1" by linarith
  have f: "\<lfloor>- x\<rfloor> = - \<lfloor>x\<rfloor> - 1"
  proof (subst floor_eq_iff, rule conjI)
    show "of_int (- \<lfloor>x\<rfloor> - 1) \<le> - x" by simp linarith
    show "- x < of_int (- \<lfloor>x\<rfloor> - 1) + 1" using lt by simp
  qed
  have r: "- x - of_int (- \<lfloor>x\<rfloor> - 1) = 1 - (x - of_int \<lfloor>x\<rfloor>)" by simp
  define fl where "fl = \<lfloor>x\<rfloor>"
  define fr where "fr = x - of_int \<lfloor>x\<rfloor>"
  have e: "even (- fl - 1) \<longleftrightarrow> odd fl" by simp
  show ?thesis
    unfolding roundEven_def Let_def f r
    unfolding fl_def [symmetric] fr_def [symmetric]
    using e by (auto simp: field_simps)
qed

lemma toDouble_uminus: "toDouble (- x) = - toDouble x"
  by (simp add: toDouble_def Let_def roundEven_uminus)

lemma powr_shift: "(2::real) powr (a + real n) = 2 ^ n * 2 powr a"
  by (simp add: powr_add powr_realpow)

lemma toDouble_upper:
  assumes "0 < x"
  shows "toDouble x \<le> 2 powr (of_int (max \<lfloor>log 2 x\<rfloor> (- 1022)) + 1)"
proof -
  define e where "e = max \<lfloor>log 2 x\<rfloor> (- 1022)"
  define q :: real where "q = 2 powr (of_int e - 52)"
  have q: "0 < q" by (simp add: q_def)
  have t: "toDouble x = of_int (roundEven (x / q)) * q"
    using assms by (simp add: toDouble_def Let_def e_def q_def)
  have "log 2 x < of_int \<lfloor>log 2 x\<rfloor> + 1" by linarith
  also have "\<dots> \<le> of_int e + 1" by (simp add: e_def)
  finally have "x < 2 powr (of_int e + 1)"
    using assms by (simp add: log_less_iff)
  also have "\<dots> = 2 ^ 53 * q"
  proof -
    have "real_of_int e + 1 = (of_int e - 52) + real 53" by simp
    then show ?thesis unfolding q_def by (simp only: powr_shift)
  qed
  finally have "x / q \<le> of_int (2 ^ 53)"
    using q by (simp add: field_simps)
  then have "roundEven (x / q) \<le> roundEven (of_int (2 ^ 53))"
    by (rule roundEven_mono)
  then have "roundEven (x / q) \<le> 2 ^ 53"
    by (simp only: roundEven_of_int)
  then have "real_of_int (roundEven (x / q)) \<le> 2 ^ 53"
    by (metis of_int_le_numeral_power_cancel_iff)
  then have "toDouble x \<le> 2 ^ 53 * q"
    using q by (simp add: t)
  also have "2 ^ 53 * q = 2 powr (of_int e + 1)"
  proof -
    have "real_of_int e + 1 = (of_int e - 52) + real 53" by simp
    then show ?thesis unfolding q_def by (simp only: powr_shift)
  qed
  finally show ?thesis unfolding e_def .
qed

lemma toDouble_lower:
  assumes "0 < x" and "- 1022 \<le> \<lfloor>log 2 x\<rfloor>"
  shows "2 powr of_int \<lfloor>log 2 x\<rfloor> \<le> toDouble x"
proof -
  define e where "e = \<lfloor>log 2 x\<rfloor>"
  define q :: real where "q = 2 powr (of_int e - 52)"
  have q: "0 < q" by (simp add: q_def)
  have m: "max \<lfloor>log 2 \<bar>x\<bar>\<rfloor> (- 1022) = e"
    using assms by (simp add: e_def)
  have t: "toDouble x = of_int (roundEven (x / q)) * q"
    using assms(1) unfolding toDouble_def Let_def m q_def by simp
  have p: "2 powr of_int e = 2 ^ 52 * q"
  proof -
    have "real_of_int e = (of_int e - 52) + real 52" by simp
    then have "2 powr real_of_int e = 2 powr ((of_int e - 52) + real 52)" by simp
    then show ?thesis unfolding q_def by (simp only: powr_shift)
  qed
  have "of_int e \<le> log 2 x" by (simp add: e_def)
  then have "2 powr of_int e \<le> x"
    using assms(1) by (simp add: le_log_iff)
  then have "of_int (2 ^ 52) \<le> x / q"
    using q by (simp add: p field_simps)
  then have "roundEven (of_int (2 ^ 52)) \<le> roundEven (x / q)"
    by (rule roundEven_mono)
  then have "2 ^ 52 \<le> roundEven (x / q)"
    by (simp only: roundEven_of_int)
  then have "2 ^ 52 \<le> real_of_int (roundEven (x / q))"
    by (metis numeral_power_le_of_int_cancel_iff)
  then have "2 ^ 52 * q \<le> toDouble x"
    using q by (simp add: t)
  then show ?thesis unfolding e_def [symmetric] p .
qed

lemma toDouble_nonneg:
  assumes "0 \<le> x"
  shows "0 \<le> toDouble x"
proof -
  have "0 \<le> x / 2 powr (of_int (max \<lfloor>log 2 \<bar>x\<bar>\<rfloor> (- 1022)) - 52)"
    using assms by simp
  then have "roundEven (of_int 0) \<le> roundEven (x / 2 powr (of_int (max \<lfloor>log 2 \<bar>x\<bar>\<rfloor> (- 1022)) - 52))"
    by (intro roundEven_mono) simp
  then have "0 \<le> roundEven (x / 2 powr (of_int (max \<lfloor>log 2 \<bar>x\<bar>\<rfloor> (- 1022)) - 52))"
    by (simp only: roundEven_of_int)
  then show ?thesis
    by (simp add: toDouble_def Let_def)
qed

lemma toDouble_mono_pos:
  assumes "0 < x" and "x \<le> y"
  shows "toDouble x \<le> toDouble y"
proof -
  define ex where "ex = max \<lfloor>log 2 x\<rfloor> (- 1022)"
  define ey where "ey = max \<lfloor>log 2 y\<rfloor> (- 1022)"
  have y: "0 < y" using assms by simp
  have "log 2 x \<le> log 2 y" using assms by simp
  then have "\<lfloor>log 2 x\<rfloor> \<le> \<lfloor>log 2 y\<rfloor>" by (rule floor_mono)
  then have le: "ex \<le> ey" by (simp add: ex_def ey_def)
  show ?thesis
  proof (cases "ex = ey")
    case True
    define q :: real where "q = 2 powr (of_int ey - 52)"
    have q: "0 < q" by (simp add: q_def)
    have "x / q \<le> y / q" using assms(2) q by (simp add: divide_right_mono)
    then have "roundEven (x / q) \<le> roundEven (y / q)" by (rule roundEven_mono)
    then have "of_int (roundEven (x / q)) * q \<le> of_int (roundEven (y / q)) * q"
      using q by simp
    moreover have "toDouble x = of_int (roundEven (x / q)) * q"
      using assms(1) True by (simp add: toDouble_def Let_def q_def ex_def [symmetric])
    moreover have "toDouble y = of_int (roundEven (y / q)) * q"
      using y by (simp add: toDouble_def Let_def q_def ey_def [symmetric])
    ultimately show ?thesis by simp
  next
    case False
    with le have lt: "ex + 1 \<le> ey" by simp
    then have "- 1022 < ey" by (simp add: ex_def)
    then have ey: "ey = \<lfloor>log 2 y\<rfloor>" "- 1022 \<le> \<lfloor>log 2 y\<rfloor>"
      by (simp_all add: ey_def max_def split: if_splits)
    have "toDouble x \<le> 2 powr (of_int ex + 1)"
      unfolding ex_def by (rule toDouble_upper [OF assms(1)])
    also have "\<dots> \<le> 2 powr of_int ey"
    proof -
      have "real_of_int ex + 1 \<le> real_of_int ey" using lt by linarith
      then show ?thesis by simp
    qed
    also have "\<dots> \<le> toDouble y"
      unfolding ey(1) by (rule toDouble_lower [OF y ey(2)])
    finally show ?thesis .
  qed
qed

lemma toDouble_mono:
  assumes "x \<le> y"
  shows "toDouble x \<le> toDouble y"
proof -
  consider "0 < x" | "x \<le> 0" "0 \<le> y" | "y < 0" by linarith
  then show ?thesis
  proof cases
    case 1
    then show ?thesis using assms by (rule toDouble_mono_pos)
  next
    case 2
    have "0 \<le> toDouble (- x)" using 2(1) by (intro toDouble_nonneg) simp
    then have "toDouble x \<le> 0" by (simp add: toDouble_uminus)
    also have "0 \<le> toDouble y" using 2(2) by (rule toDouble_nonneg)
    finally show ?thesis .
  next
    case 3
    have "toDouble (- y) \<le> toDouble (- x)"
      using 3 assms by (intro toDouble_mono_pos) simp_all
    then show ?thesis by (simp add: toDouble_uminus)
  qed
qed

text \<open>A multiple of \<open>2 ^ - 12\<close> of magnitude below \<open>2 ^ 40\<close> is a double.\<close>

lemma toDouble_fixed:
  assumes "x * 4096 \<in> \<int>" and "\<bar>x\<bar> < 1099511627776"
  shows "toDouble x = x"
proof -
  from assms(1) obtain m where m: "x * 4096 = of_int m" by (rule Ints_cases)
  have x: "x = of_int m / 2 ^ 12" using m by simp
  have "\<bar>x * 4096\<bar> < 2 ^ 53" using assms(2) by (simp add: abs_mult)
  then have "\<bar>real_of_int m\<bar> < 2 ^ 53" by (simp only: m)
  then have "\<bar>m\<bar> < 2 ^ 53"
    by (metis of_int_abs of_int_less_numeral_power_cancel_iff)
  then have "toDouble (of_int m / 2 ^ 12) = of_int m / 2 ^ 12"
    by (intro toDouble_dyadic) simp_all
  then show ?thesis by (simp only: x)
qed

lemma toDouble_le:
  assumes "x \<le> c" and "toDouble c = c"
  shows "toDouble x \<le> c"
  using toDouble_mono [OF assms(1)] assms(2) by simp

lemma toDouble_ge:
  assumes "c \<le> x" and "toDouble c = c"
  shows "c \<le> toDouble x"
  using toDouble_mono [OF assms(1)] assms(2) by simp

lemma roundEven_error: "\<bar>of_int (roundEven y) - y\<bar> \<le> 1 / 2"
proof -
  define f where "f = \<lfloor>y\<rfloor>"
  define r where "r = y - of_int f"
  have r: "0 \<le> r" "r < 1" unfolding r_def f_def by linarith+
  have y: "y = of_int f + r" by (simp add: r_def)
  have "roundEven y = (if r < 1 / 2 then f else if 1 / 2 < r then f + 1 else if even f then f else f + 1)"
    by (simp add: roundEven_def Let_def f_def r_def)
  then show ?thesis using r unfolding y by (auto simp: abs_if)
qed

text \<open>Rounding a number below \<open>2 ^ (k + 1)\<close> moves it by at most \<open>2 ^ (k - 53)\<close>.\<close>

lemma toDouble_error:
  assumes "\<bar>x\<bar> < 2 powr (of_int k + 1)" and "- 1022 \<le> k"
  shows "\<bar>toDouble x - x\<bar> \<le> 2 powr (of_int k - 53)"
proof (cases "x = 0")
  case True
  then show ?thesis by (simp add: toDouble_def)
next
  case False
  define e where "e = max \<lfloor>log 2 \<bar>x\<bar>\<rfloor> (- 1022)"
  define q :: real where "q = 2 powr (of_int e - 52)"
  have q: "0 < q" by (simp add: q_def)
  have t: "toDouble x = of_int (roundEven (x / q)) * q"
    using False by (simp add: toDouble_def Let_def e_def q_def)
  have "log 2 \<bar>x\<bar> < of_int k + 1"
    using assms(1) False by (simp add: log_less_iff)
  then have "\<lfloor>log 2 \<bar>x\<bar>\<rfloor> \<le> k" by linarith
  then have ek: "e \<le> k" using assms(2) by (simp add: e_def)
  have "toDouble x - x = (of_int (roundEven (x / q)) - x / q) * q"
    using q by (simp add: t field_simps)
  then have "\<bar>toDouble x - x\<bar> = \<bar>of_int (roundEven (x / q)) - x / q\<bar> * q"
    using q by (simp add: abs_mult)
  also have "\<dots> \<le> 1 / 2 * q"
    using roundEven_error [of "x / q"] q by (intro mult_right_mono) simp_all
  also have "\<dots> = 2 powr (of_int e - 53)"
  proof -
    have "(2::real) powr (of_int e - 52) = 2 powr ((of_int e - 53) + 1)" by simp
    also have "\<dots> = 2 powr (of_int e - 53) * 2" by (simp only: powr_add) simp
    finally show ?thesis by (simp add: q_def)
  qed
  also have "\<dots> \<le> 2 powr (of_int k - 53)"
    using ek by simp
  finally show ?thesis .
qed

lemma toDouble_error_unit:
  assumes "\<bar>x\<bar> \<le> 1"
  shows "\<bar>toDouble x - x\<bar> \<le> 1 / 2 ^ 53"
proof -
  have "\<bar>toDouble x - x\<bar> \<le> 2 powr (of_int 0 - 53)"
    using assms by (intro toDouble_error) simp_all
  also have "2 powr (of_int 0 - 53) = 1 / (2::real) ^ 53"
    by (simp add: powr_minus_divide)
  finally show ?thesis .
qed

lemma toDouble_error_below:
  assumes "\<bar>x\<bar> < 2 ^ 50"
  shows "\<bar>toDouble x - x\<bar> \<le> 1 / 16"
proof -
  have "(2::real) powr (of_int 49 + 1) = 2 ^ 50"
    using powr_realpow [of 2 50] by simp
  then have "\<bar>toDouble x - x\<bar> \<le> 2 powr (of_int 49 - 53)"
    using assms by (intro toDouble_error) simp_all
  also have "2 powr (of_int 49 - 53) = 1 / (16::real)"
    by (simp add: powr_minus_divide)
  finally show ?thesis .
qed

text \<open>
  The falloff in doubles lies between a half and one and within \<open>3 / 2 ^ 53\<close> of the exact
  falloff, so for a base damage below \<open>2 ^ 50\<close> the rounded product is less than one away
  from the exact product.
\<close>

lemma falloff_error:
  assumes "0 \<le> u" and "u \<le> 1"
  shows "\<bar>toDouble (1 - toDouble (toDouble u * (1 / 2))) - (1 - u * (1 / 2))\<bar> \<le> 3 / 2 ^ 53"
    and "\<bar>toDouble (1 - toDouble (toDouble u * (1 / 2)))\<bar> \<le> 1"
proof -
  have c: "toDouble 0 = 0" "toDouble 1 = 1" "toDouble (1 / 2) = 1 / 2"
    by (simp_all add: toDouble_fixed)
  define a1 where "a1 = toDouble u"
  define a2 where "a2 = toDouble (a1 * (1 / 2))"
  define a3 where "a3 = toDouble (1 - a2)"
  have a1: "0 \<le> a1" "a1 \<le> 1"
    using toDouble_mono [OF assms(1)] toDouble_mono [OF assms(2)] by (simp_all add: a1_def c)
  have e1: "\<bar>a1 - u\<bar> \<le> 1 / 2 ^ 53"
    unfolding a1_def using assms by (intro toDouble_error_unit) simp
  have "0 \<le> a1 * (1 / 2)" "a1 * (1 / 2) \<le> 1 / 2" using a1 by simp_all
  then have a2: "0 \<le> a2" "a2 \<le> 1 / 2"
    using toDouble_mono [of 0 "a1 * (1 / 2)"] toDouble_mono [of "a1 * (1 / 2)" "1 / 2"]
    by (simp_all add: a2_def c)
  have e2: "\<bar>a2 - a1 * (1 / 2)\<bar> \<le> 1 / 2 ^ 53"
    unfolding a2_def using a1 by (intro toDouble_error_unit) simp
  have "1 / 2 \<le> 1 - a2" "1 - a2 \<le> 1" using a2 by simp_all
  then have a3: "1 / 2 \<le> a3" "a3 \<le> 1"
    using toDouble_mono [of "1 / 2" "1 - a2"] toDouble_mono [of "1 - a2" 1]
    by (simp_all add: a3_def c)
  have e3: "\<bar>a3 - (1 - a2)\<bar> \<le> 1 / 2 ^ 53"
    unfolding a3_def using a2 by (intro toDouble_error_unit) simp
  define eps :: real where "eps = 1 / 2 ^ 53"
  have "\<bar>a3 - (1 - u * (1 / 2))\<bar> \<le> 3 * eps"
    using e1 e2 e3 unfolding eps_def [symmetric] by linarith
  then have "\<bar>a3 - (1 - u * (1 / 2))\<bar> \<le> 3 / 2 ^ 53"
    by (simp add: eps_def)
  then show "\<bar>toDouble (1 - toDouble (toDouble u * (1 / 2))) - (1 - u * (1 / 2))\<bar> \<le> 3 / 2 ^ 53"
    by (simp only: a1_def a2_def a3_def)
  have "\<bar>a3\<bar> \<le> 1" using a3 by simp
  then show "\<bar>toDouble (1 - toDouble (toDouble u * (1 / 2)))\<bar> \<le> 1"
    by (simp only: a1_def a2_def a3_def)
qed

lemma product_error:
  assumes "0 \<le> u" and "u \<le> 1" and "\<bar>b\<bar> < 2 ^ 50"
  shows "\<bar>toDouble (b * toDouble (1 - toDouble (toDouble u * (1 / 2)))) - b * (1 - u * (1 / 2))\<bar> < 1"
proof -
  define a3 where "a3 = toDouble (1 - toDouble (toDouble u * (1 / 2)))"
  have e: "\<bar>a3 - (1 - u * (1 / 2))\<bar> \<le> 3 / 2 ^ 53" and a3: "\<bar>a3\<bar> \<le> 1"
    unfolding a3_def using falloff_error [OF assms(1,2)] by blast+
  have "\<bar>b * a3\<bar> = \<bar>b\<bar> * \<bar>a3\<bar>" by (rule abs_mult)
  also have "\<dots> \<le> \<bar>b\<bar> * 1" using a3 by (intro mult_left_mono) simp_all
  finally have "\<bar>b * a3\<bar> < 2 ^ 50" using assms(3) by simp
  then have r: "\<bar>toDouble (b * a3) - b * a3\<bar> \<le> 1 / 16" by (rule toDouble_error_below)
  have "\<bar>b * a3 - b * (1 - u * (1 / 2))\<bar> = \<bar>b\<bar> * \<bar>a3 - (1 - u * (1 / 2))\<bar>"
    by (simp add: abs_mult flip: right_diff_distrib)
  also have "\<dots> \<le> 2 ^ 50 * (3 / 2 ^ 53)"
    using assms(3) e by (intro mult_mono) simp_all
  also have "\<dots> = 3 / 8" by simp
  finally have "\<bar>b * a3 - b * (1 - u * (1 / 2))\<bar> \<le> 3 / 8" .
  with r have "\<bar>toDouble (b * a3) - b * (1 - u * (1 / 2))\<bar> < 1"
    by linarith
  then show ?thesis by (simp only: a3_def)
qed

lemma floor_near:
  fixes x y :: real
  assumes "\<bar>x - y\<bar> < 1"
  shows "\<bar>max 1 (real_of_int \<lfloor>x\<rfloor>) - max 1 (real_of_int \<lfloor>y\<rfloor>)\<bar> \<le> 1"
proof -
  have "\<bar>\<lfloor>x\<rfloor> - \<lfloor>y\<rfloor>\<bar> \<le> 1" using assms by linarith
  then have "\<bar>real_of_int \<lfloor>x\<rfloor> - real_of_int \<lfloor>y\<rfloor>\<bar> \<le> 1"
    by (metis of_int_1 of_int_abs of_int_diff of_int_le_iff)
  then show ?thesis by (simp add: max_def abs_le_iff) linarith
qed

text \<open>The distance of two neighbouring cells of a row is exactly \<open>1\<close>.\<close>

lemma distance_unit_step:
  assumes "x_of a - x_of b = - 1" and "y_of a - y_of b = 0"
  shows "distance a b = 1"
  using assms
  by (simp add: distance_def dsub_def dmul_def dadd_def dsqrt_def toDouble_fixed)

section \<open>Target selection\<close>

text \<open>\<open>Grid.distance\<close> written out: the Euclidean distance, every operation rounded.\<close>

lemma distance_rounded:
  "distance a b =
     toDouble (sqrt (toDouble
       (toDouble (toDouble (x_of a - x_of b) * toDouble (x_of a - x_of b))
        + toDouble (toDouble (y_of a - y_of b) * toDouble (y_of a - y_of b)))))"
  by (simp add: distance_def dsub_def dmul_def dadd_def dsqrt_def Let_def)

lemma inRange_rounded:
  "inRange twr ms =
     filter (\<lambda>m. \<not> isDead m \<and> \<not> reachedEnd m
        \<and> toDouble (sqrt (toDouble
             (toDouble (toDouble (x_of (tile twr) - x_of (pos m)) * toDouble (x_of (tile twr) - x_of (pos m)))
              + toDouble (toDouble (y_of (tile twr) - y_of (pos m)) * toDouble (y_of (tile twr) - y_of (pos m))))))
            \<le> towerRange twr) ms"
  by (simp add: inRange_def distance_rounded)

text \<open>
  The scan for strategy \<open>first\<close>, started with any running best: if some mob lies above
  the running bound, the result is the earliest mob of greatest progress; otherwise the
  running best is returned.
\<close>

lemma firstScan_spec:
  "(if \<exists>m\<in>set ms. bp < pathProgress m
    then \<exists>pre m post. ms = pre @ m # post \<and> firstScan ms best bp = Some m \<and> bp < pathProgress m \<and>
           (\<forall>a\<in>set pre. pathProgress a < pathProgress m) \<and>
           (\<forall>a\<in>set post. pathProgress a \<le> pathProgress m)
    else firstScan ms best bp = best)"
proof (induction ms arbitrary: best bp)
  case Nil
  then show ?case by simp
next
  case (Cons m ms)
  show ?case
  proof (cases "bp < pathProgress m")
    case True
    note IH = Cons.IH [of "pathProgress m" "Some m"]
    have ex: "\<exists>a\<in>set (m # ms). bp < pathProgress a" using True by simp
    show ?thesis
    proof (cases "\<exists>a\<in>set ms. pathProgress m < pathProgress a")
      case later: True
      with IH obtain pre m' post where
        h: "ms = pre @ m' # post" "firstScan ms (Some m) (pathProgress m) = Some m'"
           "pathProgress m < pathProgress m'"
           "\<forall>a\<in>set pre. pathProgress a < pathProgress m'"
           "\<forall>a\<in>set post. pathProgress a \<le> pathProgress m'"
        by auto
      have "m # ms = (m # pre) @ m' # post" using h(1) by simp
      moreover have "firstScan (m # ms) best bp = Some m'" using True h(2) by simp
      moreover have "bp < pathProgress m'" using True h(3) by simp
      moreover have "\<forall>a\<in>set (m # pre). pathProgress a < pathProgress m'" using h(3,4) by simp
      ultimately have "\<exists>pre m'' post. m # ms = pre @ m'' # post \<and> firstScan (m # ms) best bp = Some m'' \<and>
           bp < pathProgress m'' \<and> (\<forall>a\<in>set pre. pathProgress a < pathProgress m'') \<and>
           (\<forall>a\<in>set post. pathProgress a \<le> pathProgress m'')"
        using h(5) by blast
      with ex show ?thesis by (simp only: if_True)
    next
      case False
      with IH have r: "firstScan ms (Some m) (pathProgress m) = Some m" by simp
      have "m # ms = [] @ m # ms" by simp
      moreover have "firstScan (m # ms) best bp = Some m" using True r by simp
      moreover have "\<forall>a\<in>set ms. pathProgress a \<le> pathProgress m" using False by (auto simp: not_less)
      moreover have "\<forall>a\<in>set ([]::mob list). pathProgress a < pathProgress m" by simp
      ultimately have "\<exists>pre m'' post. m # ms = pre @ m'' # post \<and> firstScan (m # ms) best bp = Some m'' \<and>
           bp < pathProgress m'' \<and> (\<forall>a\<in>set pre. pathProgress a < pathProgress m'') \<and>
           (\<forall>a\<in>set post. pathProgress a \<le> pathProgress m'')"
        using True by blast
      with ex show ?thesis by (simp only: if_True)
    qed
  next
    case nb: False
    note IH = Cons.IH [of bp best]
    have step: "firstScan (m # ms) best bp = firstScan ms best bp" using nb by simp
    show ?thesis
    proof (cases "\<exists>a\<in>set ms. bp < pathProgress a")
      case True
      with IH obtain pre m' post where
        h: "ms = pre @ m' # post" "firstScan ms best bp = Some m'"
           "bp < pathProgress m'"
           "\<forall>a\<in>set pre. pathProgress a < pathProgress m'"
           "\<forall>a\<in>set post. pathProgress a \<le> pathProgress m'"
        by auto
      have "m # ms = (m # pre) @ m' # post" using h(1) by simp
      moreover have "firstScan (m # ms) best bp = Some m'" using step h(2) by simp
      moreover have "\<forall>a\<in>set (m # pre). pathProgress a < pathProgress m'" using h(3,4) nb by auto
      ultimately have "\<exists>pre m'' post. m # ms = pre @ m'' # post \<and> firstScan (m # ms) best bp = Some m'' \<and>
           bp < pathProgress m'' \<and> (\<forall>a\<in>set pre. pathProgress a < pathProgress m'') \<and>
           (\<forall>a\<in>set post. pathProgress a \<le> pathProgress m'')"
        using h(3,5) by blast
      moreover have "\<exists>a\<in>set (m # ms). bp < pathProgress a" using True by simp
      ultimately show ?thesis by (simp only: if_True)
    next
      case False
      with IH have "firstScan ms best bp = best" by simp
      moreover have "\<not> (\<exists>a\<in>set (m # ms). bp < pathProgress a)" using False nb by simp
      ultimately show ?thesis using step by (simp only: if_False)
    qed
  qed
qed

text \<open>Every scan returns its running best or a mob of the list it scans.\<close>

lemma firstScan_mem: "firstScan ms best b = Some m \<Longrightarrow> best = Some m \<or> m \<in> set ms"
  by (induction ms arbitrary: best b) (auto split: if_splits)

lemma lastScan_mem: "lastScan ms best b = Some m \<Longrightarrow> best = Some m \<or> m \<in> set ms"
  by (induction ms arbitrary: best b) (auto split: if_splits)

lemma strongestScan_mem: "strongestScan ms best b = Some m \<Longrightarrow> best = Some m \<or> m \<in> set ms"
  by (induction ms arbitrary: best b) (auto split: if_splits)

lemma weakestScan_mem: "weakestScan ms best b = Some m \<Longrightarrow> best = Some m \<or> m \<in> set ms"
  by (induction ms arbitrary: best b) (auto split: if_splits)

lemma nearestScan_mem: "nearestScan tp ms best b = Some m \<Longrightarrow> best = Some m \<or> m \<in> set ms"
  by (induction ms arbitrary: best b) (auto simp: Let_def split: if_splits)

lemma findTarget_mem:
  assumes "findTarget twr ms strategy = Some m"
  shows "m \<in> set (inRange twr ms)"
proof (cases strategy)
  case First
  with assms show ?thesis
    by (auto simp: findTarget_def findFirstTarget_def Let_def split: if_splits dest: firstScan_mem)
next
  case Last
  with assms show ?thesis
    by (auto simp: findTarget_def findLastTarget_def Let_def split: if_splits dest: lastScan_mem)
next
  case Strongest
  with assms show ?thesis
    by (auto simp: findTarget_def findStrongestTarget_def Let_def split: if_splits dest: strongestScan_mem)
next
  case Weakest
  with assms show ?thesis
    by (auto simp: findTarget_def findWeakestTarget_def Let_def split: if_splits dest: weakestScan_mem)
next
  case Nearest
  with assms show ?thesis
    by (auto simp: findTarget_def findNearestTarget_def Let_def split: if_splits dest: nearestScan_mem)
qed

text \<open>
  The distances of the example mobs from the example tower at \<open>(5, 5)\<close>, as far as the
  range \<open>3\<close> needs them.
\<close>

lemma example_distances:
  "distance (Vec2 5 5) (Vec2 5 6) = 1"
  "distance (Vec2 5 5) (Vec2 6 6) \<le> 3"
  "distance (Vec2 5 5) (Vec2 7 7) \<le> 3"
  "\<not> distance (Vec2 5 5) (Vec2 8 6) \<le> 3"
  "\<not> distance (Vec2 5 5) (Vec2 10 10) \<le> 3"
proof -
  show "distance (Vec2 5 5) (Vec2 5 6) = 1"
    by (simp add: distance_rounded toDouble_fixed)
  have "sqrt 2 \<le> 3" by (rule real_le_lsqrt) simp_all
  then have "toDouble (sqrt 2) \<le> 3" by (rule toDouble_le) (simp add: toDouble_fixed)
  then show "distance (Vec2 5 5) (Vec2 6 6) \<le> 3"
    by (simp add: distance_rounded toDouble_fixed)
  have "sqrt 8 \<le> 3" by (rule real_le_lsqrt) simp_all
  then have "toDouble (sqrt 8) \<le> 3" by (rule toDouble_le) (simp add: toDouble_fixed)
  then show "distance (Vec2 5 5) (Vec2 7 7) \<le> 3"
    by (simp add: distance_rounded toDouble_fixed)
  have "25 / 8 \<le> sqrt 10" by (rule real_le_rsqrt) (simp add: power2_eq_square)
  then have "25 / 8 \<le> toDouble (sqrt 10)" by (rule toDouble_ge) (simp add: toDouble_fixed)
  then show "\<not> distance (Vec2 5 5) (Vec2 8 6) \<le> 3"
    by (simp add: distance_rounded toDouble_fixed)
  have "4 \<le> sqrt 50" by (rule real_le_rsqrt) simp
  then have "4 \<le> toDouble (sqrt 50)" by (rule toDouble_ge) (simp add: toDouble_fixed)
  then show "\<not> distance (Vec2 5 5) (Vec2 10 10) \<le> 3"
    by (simp add: distance_rounded toDouble_fixed)
qed

lemma example_candidates: "inRange exampleTower exampleMobs = [mobB, mobA, cornerMob]"
  by (simp add: inRange_def exampleMobs_def exampleTower_def mobA_def mobB_def cornerMob_def
      beyondMob_def farMob_def deadMob_def goneMob_def example_distances)

text \<open>
  Claim C7, as stated, fails for a candidate whose path progress is not above \<open>-1\<close>,
  the initial bound of the scan for strategy \<open>first\<close>: the only mob of the list is alive,
  has not reached the end and stands at distance \<open>1\<close> from a tower of range \<open>3\<close>, and
  no target is returned.
\<close>

theorem findTarget_first_at_initial_bound:
  "inRange exampleTower [sentinelMob] = [sentinelMob]
   \<and> \<not> isDead sentinelMob \<and> \<not> reachedEnd sentinelMob
   \<and> distance (tile exampleTower) (pos sentinelMob) = 1 \<and> towerRange exampleTower = 3
   \<and> pathProgress sentinelMob = - 1
   \<and> findTarget exampleTower [sentinelMob] First = None"
proof -
  have d: "distance (tile exampleTower) (pos sentinelMob) = 1"
    by (simp add: exampleTower_def sentinelMob_def mobB_def mobA_def example_distances)
  have c: "inRange exampleTower [sentinelMob] = [sentinelMob]"
    using d by (simp add: inRange_def sentinelMob_def mobB_def mobA_def exampleTower_def)
  have "findTarget exampleTower [sentinelMob] First = None"
    unfolding findTarget_def c by (simp add: findFirstTarget_def sentinelMob_def)
  with c d show ?thesis
    by (simp add: sentinelMob_def mobB_def mobA_def exampleTower_def)
qed

text \<open>
  Claim C7, amended. The candidates of \<open>findTarget\<close> are the mobs of the list, in list
  order, that are not dead, have not reached the end and lie within Euclidean distance
  \<open>towerRange\<close> of the tower's tile, the distance \<open>sqrt (dx * dx + dy * dy)\<close> computed in
  doubles; every target returned is a candidate, and without candidates no target is
  returned. With strategy \<open>first\<close>, if some candidate's path progress is above the
  scan's initial bound \<open>-1\<close> (path progress ranges over 0 to 1), the target is a
  candidate of greatest path progress, and the earliest such candidate in scan order:
  those before it have strictly smaller progress. If no candidate's path progress is
  above \<open>-1\<close>, no target is returned.
\<close>

theorem findTarget_first:
  "(let euclid = (\<lambda>m. toDouble (sqrt (toDouble
                    (toDouble (toDouble (x_of (tile twr) - x_of (pos m)) * toDouble (x_of (tile twr) - x_of (pos m)))
                     + toDouble (toDouble (y_of (tile twr) - y_of (pos m)) * toDouble (y_of (tile twr) - y_of (pos m)))))));
        cands = filter (\<lambda>m. \<not> isDead m \<and> \<not> reachedEnd m \<and> euclid m \<le> towerRange twr) ms
    in (cands = [] \<longrightarrow> findTarget twr ms strategy = None)
       \<and> (\<forall>m. findTarget twr ms strategy = Some m \<longrightarrow> m \<in> set cands)
       \<and> ((\<exists>m\<in>set cands. - 1 < pathProgress m) \<longrightarrow>
            (\<exists>pre m post. cands = pre @ m # post \<and> findTarget twr ms First = Some m
               \<and> (\<forall>a\<in>set pre. pathProgress a < pathProgress m)
               \<and> (\<forall>a\<in>set post. pathProgress a \<le> pathProgress m)))
       \<and> ((\<forall>m\<in>set cands. pathProgress m \<le> - 1) \<longrightarrow> findTarget twr ms First = None))"
proof -
  define cands where "cands = inRange twr ms"
  have first: "findTarget twr ms First = firstScan cands None (- 1)"
    by (cases "cands = []") (simp_all add: findTarget_def findFirstTarget_def cands_def)
  have 1: "cands = [] \<longrightarrow> findTarget twr ms strategy = None"
    by (simp add: findTarget_def cands_def)
  have 2: "\<forall>m. findTarget twr ms strategy = Some m \<longrightarrow> m \<in> set cands"
    unfolding cands_def using findTarget_mem by blast
  have 3: "(\<exists>m\<in>set cands. - 1 < pathProgress m) \<longrightarrow>
            (\<exists>pre m post. cands = pre @ m # post \<and> findTarget twr ms First = Some m
               \<and> (\<forall>a\<in>set pre. pathProgress a < pathProgress m)
               \<and> (\<forall>a\<in>set post. pathProgress a \<le> pathProgress m))"
  proof
    assume "\<exists>m\<in>set cands. - 1 < pathProgress m"
    with firstScan_spec [where ms = cands and bp = "- 1" and best = None]
    have "\<exists>pre m post. cands = pre @ m # post \<and> firstScan cands None (- 1) = Some m \<and> - 1 < pathProgress m \<and>
             (\<forall>a\<in>set pre. pathProgress a < pathProgress m) \<and>
             (\<forall>a\<in>set post. pathProgress a \<le> pathProgress m)"
      by (simp only: if_True)
    then show "\<exists>pre m post. cands = pre @ m # post \<and> findTarget twr ms First = Some m
             \<and> (\<forall>a\<in>set pre. pathProgress a < pathProgress m)
             \<and> (\<forall>a\<in>set post. pathProgress a \<le> pathProgress m)"
      unfolding first by metis
  qed
  have 4: "(\<forall>m\<in>set cands. pathProgress m \<le> - 1) \<longrightarrow> findTarget twr ms First = None"
  proof
    assume "\<forall>m\<in>set cands. pathProgress m \<le> - 1"
    then have "\<not> (\<exists>m\<in>set cands. - 1 < pathProgress m)" by (simp add: not_less)
    with firstScan_spec [where ms = cands and bp = "- 1" and best = None]
    have "firstScan cands None (- 1) = None" by (simp only: if_False)
    then show "findTarget twr ms First = None" by (simp only: first)
  qed
  from 1 2 3 4 show ?thesis
    unfolding Let_def cands_def inRange_rounded by (intro conjI)
qed

theorem findTarget_first_witness:
  "inRange exampleTower exampleMobs = [mobB, mobA, cornerMob]
   \<and> pathProgress mobB = 3 / 10 \<and> pathProgress mobA = 1 / 2 \<and> pathProgress cornerMob = 1 / 2
   \<and> findTarget exampleTower exampleMobs First = Some mobA
   \<and> (\<exists>pre m post. [mobB, mobA, cornerMob] = pre @ m # post
         \<and> findTarget exampleTower exampleMobs First = Some m
         \<and> list_all (\<lambda>a. pathProgress a < pathProgress m) pre
         \<and> list_all (\<lambda>a. pathProgress a \<le> pathProgress m) post)
   \<and> inRange exampleTower [sentinelMob, deadMob] = [sentinelMob]
   \<and> pathProgress sentinelMob = - 1
   \<and> findTarget exampleTower [sentinelMob, deadMob] First = None"
proof -
  note c = example_candidates
  have p: "pathProgress mobB = 3 / 10" "pathProgress mobA = 1 / 2" "pathProgress cornerMob = 1 / 2"
    by (simp_all add: mobA_def mobB_def cornerMob_def)
  have h: "\<exists>m\<in>set [mobB, mobA, cornerMob]. - 1 < pathProgress m"
    using p by simp
  have t: "findTarget exampleTower exampleMobs First = Some mobA"
    unfolding findTarget_def c using p by (simp add: findFirstTarget_def)
  note inst = findTarget_first [of exampleTower exampleMobs First]
  from h inst obtain pre m post where e: "[mobB, mobA, cornerMob] = pre @ m # post"
      "findTarget exampleTower exampleMobs First = Some m"
      "\<forall>a\<in>set pre. pathProgress a < pathProgress m"
      "\<forall>a\<in>set post. pathProgress a \<le> pathProgress m"
    unfolding Let_def inRange_rounded [symmetric] c by blast
  have "list_all (\<lambda>a. pathProgress a < pathProgress m) pre"
    and "list_all (\<lambda>a. pathProgress a \<le> pathProgress m) post"
    using e(3,4) by (simp_all add: list_all_iff)
  with e(1,2) have ex: "\<exists>pre m post. [mobB, mobA, cornerMob] = pre @ m # post
         \<and> findTarget exampleTower exampleMobs First = Some m
         \<and> list_all (\<lambda>a. pathProgress a < pathProgress m) pre
         \<and> list_all (\<lambda>a. pathProgress a \<le> pathProgress m) post"
    by blast
  have s: "inRange exampleTower [sentinelMob, deadMob] = [sentinelMob]"
    by (simp add: inRange_def exampleTower_def sentinelMob_def deadMob_def mobB_def mobA_def
        example_distances)
  have ps: "pathProgress sentinelMob = - 1" by (simp add: sentinelMob_def)
  have "\<forall>m\<in>set [sentinelMob]. pathProgress m \<le> - 1" using ps by simp
  with findTarget_first [of exampleTower "[sentinelMob, deadMob]" First]
  have n: "findTarget exampleTower [sentinelMob, deadMob] First = None"
    unfolding Let_def inRange_rounded [symmetric] s by blast
  from c p t ex s ps n show ?thesis by blast
qed

section \<open>Splash damage\<close>

lemma splashLoop_eq:
  "splashLoop center radius b ms acc =
     acc @ map (\<lambda>m. (m, splashDamageAt radius b (distance center (pos m))))
            (filter (\<lambda>m. \<not> isDead m \<and> \<not> reachedEnd m \<and> distance center (pos m) \<le> radius) ms)"
  by (induction ms arbitrary: acc) (simp_all add: Let_def)

text \<open>The damage formula written out: four operations, each rounded, then the floor.\<close>

lemma splashDamageAt_rounded:
  "splashDamageAt radius b d =
     max 1 (of_int \<lfloor>toDouble (b * toDouble (1 - toDouble (toDouble (d / radius) * (1 / 2))))\<rfloor>)"
  by (simp add: splashDamageAt_def dsub_def dmul_def ddiv_def Let_def)

text \<open>
  The quotient \<open>0.6\<close> is not a double. It is rounded down, the falloff \<open>1 - 0.3\<close> falls
  halfway between two doubles and is rounded down to the even one, and the product with
  \<open>180\<close> is rounded to the double just below \<open>126\<close>.
\<close>

lemma rounded_quotient: "toDouble (3 / 5) = 5404319552844595 / 9007199254740992"
  by (subst toDouble_below_two [where n = 1]) (simp_all add: roundEven_def)

lemma rounded_half: "toDouble (5404319552844595 / 18014398509481984) = 5404319552844595 / 18014398509481984"
  using toDouble_dyadic [of 5404319552844595 54] by simp

lemma rounded_falloff:
  "toDouble (12610078956637389 / 18014398509481984) = 3152519739159347 / 4503599627370496"
  by (subst toDouble_below_two [where n = 1]) (simp_all add: roundEven_def)

lemma rounded_product:
  "toDouble (141863388262170615 / 1125899906842624) = 8866461766385663 / 70368744177664"
  by (subst toDouble_above_one [where n = 6]) (simp_all add: roundEven_def)

lemma splashDamageAt_tier3:
  "splashDamageAt (5 / 2) 180 0 = 180"
  "splashDamageAt (5 / 2) 180 (3 / 2) = 125"
  "splashDamageAt (5 / 2) 180 (5 / 4) = 135"
  "splashDamageAt (5 / 2) 180 (5 / 2) = 90"
  by (simp_all add: splashDamageAt_rounded rounded_quotient rounded_half rounded_falloff
      rounded_product toDouble_fixed)

lemma splash_distances:
  "distance (Vec2 5 5) (Vec2 5 5) = 0"
  "distance (Vec2 5 5) (Vec2 5 (13 / 2)) = 3 / 2"
  "distance (Vec2 5 5) (Vec2 (23 / 4) 6) = 5 / 4"
  "distance (Vec2 5 5) (Vec2 (13 / 2) 7) = 5 / 2"
  "\<not> distance (Vec2 5 5) (Vec2 7 7) \<le> 5 / 2"
proof -
  have s: "sqrt (9 / 4) = 3 / 2" "sqrt (25 / 16) = 5 / 4" "sqrt (25 / 4) = 5 / 2"
    by (rule real_sqrt_unique; simp add: power2_eq_square)+
  show "distance (Vec2 5 5) (Vec2 5 5) = 0"
    by (simp add: distance_rounded toDouble_fixed)
  show "distance (Vec2 5 5) (Vec2 5 (13 / 2)) = 3 / 2"
    by (simp add: distance_rounded toDouble_fixed s)
  show "distance (Vec2 5 5) (Vec2 (23 / 4) 6) = 5 / 4"
    by (simp add: distance_rounded toDouble_fixed s)
  show "distance (Vec2 5 5) (Vec2 (13 / 2) 7) = 5 / 2"
    by (simp add: distance_rounded toDouble_fixed s)
  have "11 / 4 \<le> sqrt 8" by (rule real_le_rsqrt) (simp add: power2_eq_square)
  then have "11 / 4 \<le> toDouble (sqrt 8)" by (rule toDouble_ge) (simp add: toDouble_fixed)
  then show "\<not> distance (Vec2 5 5) (Vec2 7 7) \<le> 5 / 2"
    by (simp add: distance_rounded toDouble_fixed)
qed

text \<open>
  Claim C8, as stated, fails where the doubles round: a mob at distance \<open>1.5\<close> from the
  impact of a tier 3 cannon shell (radius \<open>2.5\<close>, damage \<open>180\<close>) is assigned \<open>125\<close>,
  while \<open>max(1, floor(b * (1 - (d / r) * 0.5)))\<close> is \<open>126\<close>.
\<close>

theorem applySplashDamage_rounds_below:
  "applySplashDamage (Vec2 5 5) (5 / 2) 180 [mobA\<lparr>pos := Vec2 5 (13 / 2)\<rparr>]
     = [(mobA\<lparr>pos := Vec2 5 (13 / 2)\<rparr>, 125)]
   \<and> sqrt ((5 - 5) * (5 - 5) + (5 - 13 / 2) * (5 - 13 / 2)) = (3 / 2 :: real)
   \<and> max 1 (of_int \<lfloor>180 * (1 - ((3 / 2) / (5 / 2)) * (1 / 2))\<rfloor>) = (126 :: real)"
proof -
  have "sqrt (9 / 4) = 3 / 2"
    by (rule real_sqrt_unique) (simp_all add: power2_eq_square)
  then have "sqrt ((5 - 5) * (5 - 5) + (5 - 13 / 2) * (5 - 13 / 2)) = (3 / 2 :: real)"
    by simp
  moreover have "applySplashDamage (Vec2 5 5) (5 / 2) 180 [mobA\<lparr>pos := Vec2 5 (13 / 2)\<rparr>]
     = [(mobA\<lparr>pos := Vec2 5 (13 / 2)\<rparr>, 125)]"
    by (simp add: applySplashDamage_def splash_distances splashDamageAt_tier3 mobA_def)
  moreover have "max 1 (of_int \<lfloor>180 * (1 - ((3 / 2) / (5 / 2)) * (1 / 2))\<rfloor>) = (126 :: real)"
    by simp
  ultimately show ?thesis by (intro conjI)
qed

text \<open>
  Claim C8, amended. For a positive radius the results of \<open>applySplashDamage\<close> are, in
  list order, the mobs that are not dead, have not reached the end and lie within the
  radius of the centre, each with the damage \<open>max(1, floor(b * (1 - (d / r) * 0.5)))\<close>
  as doubles compute it, with every operation rounded, for its Euclidean distance \<open>d\<close>,
  \<open>sqrt (dx * dx + dy * dy)\<close> in doubles as well; no other mob gets a result. At distance
  \<open>0\<close> that is the floored base damage, at the boundary the floored half of it (for a
  base damage that is a double, and whose half is one), and it is never less than \<open>1\<close>.
  In between, for a base damage below \<open>2 ^ 50\<close>, it differs by at most \<open>1\<close> from the
  value of the formula in exact arithmetic.
\<close>

theorem applySplashDamage_falloff:
  assumes "0 < radius"
  shows "(let euclid = (\<lambda>m. toDouble (sqrt (toDouble
                    (toDouble (toDouble (x_of center - x_of (pos m)) * toDouble (x_of center - x_of (pos m)))
                     + toDouble (toDouble (y_of center - y_of (pos m)) * toDouble (y_of center - y_of (pos m)))))));
              dmg = (\<lambda>d. max 1 (of_int \<lfloor>toDouble (b * toDouble (1 - toDouble (toDouble (d / radius) * (1 / 2))))\<rfloor>))
          in applySplashDamage center radius b ms =
               map (\<lambda>m. (m, dmg (euclid m)))
                 (filter (\<lambda>m. \<not> isDead m \<and> \<not> reachedEnd m \<and> euclid m \<le> radius) ms)
             \<and> (toDouble b = b \<longrightarrow> dmg 0 = max 1 (of_int \<lfloor>b\<rfloor>))
             \<and> (toDouble (b / 2) = b / 2 \<longrightarrow> dmg radius = max 1 (of_int \<lfloor>b / 2\<rfloor>))
             \<and> (\<forall>d. 1 \<le> dmg d)
             \<and> (\<forall>d. 0 \<le> d \<and> d \<le> radius \<and> \<bar>b\<bar> < 2 ^ 50 \<longrightarrow>
                  \<bar>dmg d - max 1 (of_int \<lfloor>b * (1 - (d / radius) * (1 / 2))\<rfloor>)\<bar> \<le> 1))"
proof -
  have c: "toDouble 0 = 0" "toDouble 1 = 1" "toDouble (1 / 2) = 1 / 2"
    by (simp_all add: toDouble_fixed)
  have "applySplashDamage center radius b ms =
           map (\<lambda>m. (m, splashDamageAt radius b (distance center (pos m))))
             (filter (\<lambda>m. \<not> isDead m \<and> \<not> reachedEnd m \<and> distance center (pos m) \<le> radius) ms)"
    by (simp add: applySplashDamage_def splashLoop_eq)
  then have 1: "applySplashDamage center radius b ms =
      map (\<lambda>m. (m, max 1 (of_int \<lfloor>toDouble (b * toDouble (1 - toDouble (toDouble
              (toDouble (sqrt (toDouble
                    (toDouble (toDouble (x_of center - x_of (pos m)) * toDouble (x_of center - x_of (pos m)))
                     + toDouble (toDouble (y_of center - y_of (pos m)) * toDouble (y_of center - y_of (pos m))))))
               / radius) * (1 / 2))))\<rfloor>)))
        (filter (\<lambda>m. \<not> isDead m \<and> \<not> reachedEnd m
            \<and> toDouble (sqrt (toDouble
                    (toDouble (toDouble (x_of center - x_of (pos m)) * toDouble (x_of center - x_of (pos m)))
                     + toDouble (toDouble (y_of center - y_of (pos m)) * toDouble (y_of center - y_of (pos m))))))
                \<le> radius) ms)"
    by (simp only: splashDamageAt_rounded distance_rounded)
  have 2: "toDouble b = b \<longrightarrow>
      max 1 (of_int \<lfloor>toDouble (b * toDouble (1 - toDouble (toDouble (0 / radius) * (1 / 2))))\<rfloor>)
        = max 1 (real_of_int \<lfloor>b\<rfloor>)"
    by (simp add: c)
  have 3: "toDouble (b / 2) = b / 2 \<longrightarrow>
      max 1 (of_int \<lfloor>toDouble (b * toDouble (1 - toDouble (toDouble (radius / radius) * (1 / 2))))\<rfloor>)
        = max 1 (real_of_int \<lfloor>b / 2\<rfloor>)"
  proof
    assume half: "toDouble (b / 2) = b / 2"
    have "toDouble (b * toDouble (1 - toDouble (toDouble (radius / radius) * (1 / 2)))) = toDouble (b / 2)"
      using assms by (simp add: c)
    then show "max 1 (of_int \<lfloor>toDouble (b * toDouble (1 - toDouble (toDouble (radius / radius) * (1 / 2))))\<rfloor>)
        = max 1 (real_of_int \<lfloor>b / 2\<rfloor>)"
      by (simp only: half)
  qed
  have 4: "\<forall>d. 1 \<le> max 1 (real_of_int \<lfloor>toDouble (b * toDouble (1 - toDouble (toDouble (d / radius) * (1 / 2))))\<rfloor>)"
    by simp
  have 5: "\<forall>d. 0 \<le> d \<and> d \<le> radius \<and> \<bar>b\<bar> < 2 ^ 50 \<longrightarrow>
      \<bar>max 1 (real_of_int \<lfloor>toDouble (b * toDouble (1 - toDouble (toDouble (d / radius) * (1 / 2))))\<rfloor>)
        - max 1 (real_of_int \<lfloor>b * (1 - (d / radius) * (1 / 2))\<rfloor>)\<bar> \<le> 1"
  proof (intro allI impI)
    fix d assume a: "0 \<le> d \<and> d \<le> radius \<and> \<bar>b\<bar> < 2 ^ 50"
    have "0 \<le> d / radius" "d / radius \<le> 1" using a assms by simp_all
    then have "\<bar>toDouble (b * toDouble (1 - toDouble (toDouble (d / radius) * (1 / 2))))
                 - b * (1 - (d / radius) * (1 / 2))\<bar> < 1"
      using a by (intro product_error) simp_all
    then show "\<bar>max 1 (real_of_int \<lfloor>toDouble (b * toDouble (1 - toDouble (toDouble (d / radius) * (1 / 2))))\<rfloor>)
        - max 1 (real_of_int \<lfloor>b * (1 - (d / radius) * (1 / 2))\<rfloor>)\<bar> \<le> 1"
      by (rule floor_near)
  qed
  from 1 2 3 4 5 show ?thesis
    unfolding Let_def by (intro conjI)
qed

theorem applySplashDamage_falloff_witness:
  "(0::real) < 5 / 2
   \<and> applySplashDamage (Vec2 5 5) (5 / 2) 180 splashMobs
       = [(mobA\<lparr>pos := Vec2 5 5\<rparr>, 180), (mobA\<lparr>pos := Vec2 5 (13 / 2)\<rparr>, 125),
          (mobA\<lparr>pos := Vec2 (23 / 4) 6\<rparr>, 135), (mobA\<lparr>pos := Vec2 (13 / 2) 7\<rparr>, 90)]
   \<and> toDouble 180 = 180 \<and> toDouble (180 / 2) = 180 / 2
   \<and> \<bar>splashDamageAt (5 / 2) 180 (3 / 2) - max 1 (of_int \<lfloor>(180::real) * (1 - ((3 / 2) / (5 / 2)) * (1 / 2))\<rfloor>)\<bar> \<le> 1"
proof -
  have h: "(0::real) < 5 / 2" by simp
  have b: "toDouble 180 = 180" "toDouble (180 / 2) = 180 / 2"
    by (simp_all add: toDouble_fixed)
  note inst = applySplashDamage_falloff [OF h, of "Vec2 5 5" 180 splashMobs,
      unfolded Let_def distance_rounded [symmetric] splashDamageAt_rounded [symmetric]]
  from inst have "applySplashDamage (Vec2 5 5) (5 / 2) 180 splashMobs =
      map (\<lambda>m. (m, splashDamageAt (5 / 2) 180 (distance (Vec2 5 5) (pos m))))
        (filter (\<lambda>m. \<not> isDead m \<and> \<not> reachedEnd m \<and> distance (Vec2 5 5) (pos m) \<le> 5 / 2) splashMobs)"
    by simp
  also have "\<dots> = [(mobA\<lparr>pos := Vec2 5 5\<rparr>, 180), (mobA\<lparr>pos := Vec2 5 (13 / 2)\<rparr>, 125),
          (mobA\<lparr>pos := Vec2 (23 / 4) 6\<rparr>, 135), (mobA\<lparr>pos := Vec2 (13 / 2) 7\<rparr>, 90)]"
  proof -
    have "\<not> distance (Vec2 5 5) (Vec2 7 7) * 2 \<le> 5"
      using splash_distances(5) by simp
    then show ?thesis
      by (simp add: splashMobs_def mobA_def splash_distances splashDamageAt_tier3)
  qed
  finally have r: "applySplashDamage (Vec2 5 5) (5 / 2) 180 splashMobs
       = [(mobA\<lparr>pos := Vec2 5 5\<rparr>, 180), (mobA\<lparr>pos := Vec2 5 (13 / 2)\<rparr>, 125),
          (mobA\<lparr>pos := Vec2 (23 / 4) 6\<rparr>, 135), (mobA\<lparr>pos := Vec2 (13 / 2) 7\<rparr>, 90)]" .
  have "(0::real) \<le> 3 / 2 \<and> (3 / 2 :: real) \<le> 5 / 2 \<and> \<bar>180 :: real\<bar> < 2 ^ 50" by simp
  with inst have n: "\<bar>splashDamageAt (5 / 2) 180 (3 / 2)
      - max 1 (of_int \<lfloor>(180::real) * (1 - ((3 / 2) / (5 / 2)) * (1 / 2))\<rfloor>)\<bar> \<le> 1"
    by blast
  from h r b n show ?thesis by (intro conjI)
qed

section \<open>Slow stacking\<close>

lemma applySlow_cases:
  assumes "nm = max (1 / 10) amount" and "nu = now + duration"
  shows "applySlow mob duration amount now =
     (if slowPending mob now \<and>
         ((case slowMultiplier mob of None \<Rightarrow> False | Some mult \<Rightarrow> mult \<noteq> 0 \<and> mult < nm)
          \<or> (case slowUntil mob of None \<Rightarrow> False | Some until \<Rightarrow> until > nu))
      then mob
      else mob\<lparr>slowUntil := Some nu, slowMultiplier := Some nm\<rparr>)"
  unfolding applySlow_def slowPending_def Let_def assms
  by (cases "slowUntil mob") simp_all

text \<open>
  Claim C9. A mob is slowed (\<open>isSlowed\<close>) when it carries an expiry that has not passed
  and a multiplier. For such a mob \<open>applySlow\<close> stores the new slow exactly when the new
  multiplier \<open>max 0.1 amount\<close> is at most the stored one and the new expiry
  \<open>now + duration\<close> is not before the stored one; otherwise it returns the mob as it is.
  A mob without a pending expiry always gets the new slow.
\<close>

theorem applySlow_stacking:
  "(isSlowed mob now \<and> slowUntil mob = Some until \<and> slowMultiplier mob = Some mult \<longrightarrow>
      applySlow mob duration amount now =
        (if max (1 / 10) amount \<le> mult \<and> until \<le> now + duration
         then mob\<lparr>slowUntil := Some (now + duration), slowMultiplier := Some (max (1 / 10) amount)\<rparr>
         else mob))
   \<and> (\<not> slowPending mob now \<longrightarrow>
      applySlow mob duration amount now =
        mob\<lparr>slowUntil := Some (now + duration), slowMultiplier := Some (max (1 / 10) amount)\<rparr>)"
proof -
  define nm where "nm = max (1 / 10) amount"
  define nu where "nu = now + duration"
  note c = applySlow_cases [OF nm_def nu_def, of mob]
  have p1: "applySlow mob duration amount now =
        (if nm \<le> mult \<and> until \<le> nu then mob\<lparr>slowUntil := Some nu, slowMultiplier := Some nm\<rparr> else mob)"
    if a: "isSlowed mob now \<and> slowUntil mob = Some until \<and> slowMultiplier mob = Some mult"
  proof -
    from a have "slowPending mob now" and "mult \<noteq> 0"
      by (auto simp: isSlowed_def slowPending_def)
    with a have "applySlow mob duration amount now =
       (if mult < nm \<or> until > nu then mob else mob\<lparr>slowUntil := Some nu, slowMultiplier := Some nm\<rparr>)"
      unfolding c by simp
    also have "\<dots> = (if nm \<le> mult \<and> until \<le> nu
                       then mob\<lparr>slowUntil := Some nu, slowMultiplier := Some nm\<rparr> else mob)"
      by (simp add: not_le)
    finally show ?thesis .
  qed
  have p2: "applySlow mob duration amount now = mob\<lparr>slowUntil := Some nu, slowMultiplier := Some nm\<rparr>"
    if "\<not> slowPending mob now"
    unfolding c using that by simp
  show ?thesis
    using p1 p2 unfolding nm_def nu_def by blast
qed

theorem applySlow_stacking_witness:
  "isSlowed (mobA\<lparr>slowUntil := Some 10, slowMultiplier := Some (1 / 2)\<rparr>) 0
   \<and> applySlow (mobA\<lparr>slowUntil := Some 10, slowMultiplier := Some (1 / 2)\<rparr>) 20 (2 / 5) 0
       = mobA\<lparr>slowUntil := Some 20, slowMultiplier := Some (2 / 5)\<rparr>
   \<and> applySlow (mobA\<lparr>slowUntil := Some 10, slowMultiplier := Some (1 / 2)\<rparr>) 5 (2 / 5) 0
       = mobA\<lparr>slowUntil := Some 10, slowMultiplier := Some (1 / 2)\<rparr>
   \<and> \<not> slowPending mobA 0
   \<and> applySlow mobA 3 (1 / 2) 0 = mobA\<lparr>slowUntil := Some 3, slowMultiplier := Some (1 / 2)\<rparr>"
proof -
  let ?m = "mobA\<lparr>slowUntil := Some 10, slowMultiplier := Some (1 / 2)\<rparr>"
  have h: "isSlowed ?m 0 \<and> slowUntil ?m = Some 10 \<and> slowMultiplier ?m = Some (1 / 2)"
    by (simp add: isSlowed_def)
  have n: "\<not> slowPending mobA 0"
    by (simp add: slowPending_def mobA_def)
  have a: "applySlow ?m 20 (2 / 5) 0 = mobA\<lparr>slowUntil := Some 20, slowMultiplier := Some (2 / 5)\<rparr>"
    using h applySlow_stacking [of ?m 0 10 "1 / 2" 20 "2 / 5"] by simp
  have b: "applySlow ?m 5 (2 / 5) 0 = ?m"
    using h applySlow_stacking [of ?m 0 10 "1 / 2" 5 "2 / 5"] by simp
  have c: "applySlow mobA 3 (1 / 2) 0 = mobA\<lparr>slowUntil := Some 3, slowMultiplier := Some (1 / 2)\<rparr>"
    using n applySlow_stacking [of mobA 0 0 0 3 "1 / 2"] by simp
  show ?thesis using h n a b c by simp
qed

text \<open>
  Claim C10, as stated, fails: a mob that already carries a multiplier below \<open>0.1\<close>
  keeps it when \<open>applySlow\<close> keeps the existing slow.
\<close>

theorem applySlow_keeps_stored_multiplier:
  "slowMultiplier (applySlow (mobA\<lparr>slowUntil := Some 10, slowMultiplier := Some (1 / 20)\<rparr>) 1 (1 / 2) 0)
     = Some (1 / 20)"
  by (simp add: applySlow_def)

text \<open>
  Claim C10, amended. \<open>applySlow\<close> either returns the mob as it is or stores the
  multiplier \<open>max 0.1 amount\<close>, which is at least \<open>0.1\<close> for every amount. So if the
  multiplier the mob carried, if any, was at least \<open>0.1\<close>, the multiplier after the call
  is at least \<open>0.1\<close>, and the speed of a mob of non-negative base speed is then at least
  a tenth of its base speed.
\<close>

theorem applySlow_multiplier_floor:
  "(applySlow mob duration amount now = mob
      \<or> slowMultiplier (applySlow mob duration amount now) = Some (max (1 / 10) amount))
   \<and> 1 / 10 \<le> max (1 / 10) amount
   \<and> ((\<forall>mult. slowMultiplier mob = Some mult \<longrightarrow> 1 / 10 \<le> mult) \<longrightarrow>
        (\<forall>mult. slowMultiplier (applySlow mob duration amount now) = Some mult \<longrightarrow> 1 / 10 \<le> mult)
        \<and> (0 \<le> speed mob \<longrightarrow> speed mob / 10 \<le> updateMobSpeed (applySlow mob duration amount now) t))"
proof -
  define nm where "nm = max (1 / 10) amount"
  define nu where "nu = now + duration"
  define r where "r = applySlow mob duration amount now"
  have nm: "1 / 10 \<le> nm" unfolding nm_def by (rule max.cobounded1)
  have keep: "r = mob \<or> r = mob\<lparr>slowUntil := Some nu, slowMultiplier := Some nm\<rparr>"
    unfolding r_def applySlow_cases [OF nm_def nu_def, of mob] by (rule if_split [THEN iffD2]) blast
  then have p1: "r = mob \<or> slowMultiplier r = Some nm"
    by (rule disj_forward) simp_all
  have sp: "speed r = speed mob" using keep by (rule disjE) simp_all
  have p3: "1 / 10 \<le> mult"
    if inv: "\<forall>mult. slowMultiplier mob = Some mult \<longrightarrow> 1 / 10 \<le> mult" and s: "slowMultiplier r = Some mult"
    for mult
    using keep
  proof (rule disjE)
    assume "r = mob"
    with s inv show ?thesis by simp
  next
    assume "r = mob\<lparr>slowUntil := Some nu, slowMultiplier := Some nm\<rparr>"
    with s have "mult = nm" by simp
    with nm show ?thesis by simp
  qed
  have p4: "speed mob / 10 \<le> updateMobSpeed r t"
    if inv: "\<forall>mult. slowMultiplier mob = Some mult \<longrightarrow> 1 / 10 \<le> mult" and nn: "0 \<le> speed mob"
  proof (cases "slowMultiplier r")
    case None
    then show ?thesis using nn sp by (simp add: updateMobSpeed_def)
  next
    case (Some mult)
    then have "1 / 10 \<le> mult" using p3 [OF inv] by simp
    then have "speed mob * (1 / 10) \<le> speed mob * mult" using nn by (rule mult_left_mono)
    then show ?thesis using Some nn sp by (simp add: updateMobSpeed_def)
  qed
  show ?thesis
    using p1 nm p3 p4 unfolding r_def nm_def by blast
qed

theorem applySlow_multiplier_floor_witness:
  "slowMultiplier mobA = None \<and> 0 \<le> speed mobA
   \<and> slowMultiplier (applySlow mobA 3 (- 1) 0) = Some (1 / 10)
   \<and> speed mobA / 10 \<le> updateMobSpeed (applySlow mobA 3 (- 1) 0) 1"
proof -
  have h: "\<forall>mult. slowMultiplier mobA = Some mult \<longrightarrow> 1 / 10 \<le> mult" by (simp add: mobA_def)
  have s: "0 \<le> speed mobA" by (simp add: mobA_def)
  have v: "slowMultiplier (applySlow mobA 3 (- 1) 0) = Some (1 / 10)"
    by (simp add: applySlow_def mobA_def)
  have "speed mobA / 10 \<le> updateMobSpeed (applySlow mobA 3 (- 1) 0) 1"
    using h s applySlow_multiplier_floor [of mobA 3 "- 1" 0 1] by blast
  moreover have "slowMultiplier mobA = None" by (simp add: mobA_def)
  ultimately show ?thesis using s v by blast
qed

section \<open>Tower placement\<close>

text \<open>
  What \<open>placeTower\<close> does when it returns: with a known tower type, enough money, a
  buildable tile and no tower on it, it appends one tier-1 tower on that tile with the
  type's base stats and debits the base cost; in every other case it returns the game
  unchanged.
\<close>

lemma placeTower_accepts:
  assumes "TOWER_DEFINITIONS towerType = Own towerDef"
    and "baseCost towerDef \<le> money g"
    and "isBuildable (gmap g) p = Inr True"
    and "find (\<lambda>t. x_of (tile t) = x_of p \<and> y_of (tile t) = y_of p) (towers g) = None"
  shows "placeTower rnd k g p towerType =
           Inr (g\<lparr>towers := towers g @ [newTower towerDef p (time g) (rnd k)],
                  money := money g - baseCost towerDef\<rparr>, Suc k)"
  using assms by (simp add: placeTower_def not_less)

lemma newTower_fields:
  "tier (newTower towerDef p now r) = 1 \<and> tile (newTower towerDef p now r) = p
   \<and> towerRange (newTower towerDef p now r) = bsRange (baseStatsOf towerDef)
   \<and> rate (newTower towerDef p now r) = bsRate (baseStatsOf towerDef)
   \<and> damage (newTower towerDef p now r) = bsDamage (baseStatsOf towerDef)
   \<and> projectileSpeed (newTower towerDef p now r) = bsProjectileSpeed (baseStatsOf towerDef)
   \<and> splashRadius (newTower towerDef p now r) = bsSplashRadius (baseStatsOf towerDef)
   \<and> slowDuration (newTower towerDef p now r) = bsSlowDuration (baseStatsOf towerDef)
   \<and> slowAmount (newTower towerDef p now r) = bsSlowAmount (baseStatsOf towerDef)
   \<and> cost (newTower towerDef p now r) = baseCost towerDef"
  by (simp add: newTower_def)

lemma placeTower_declines:
  assumes "placeTower rnd k g p towerType = Inr (g', k')"
    and "TOWER_DEFINITIONS towerType = Missing
         \<or> (\<exists>towerDef. TOWER_DEFINITIONS towerType = Own towerDef \<and> money g < baseCost towerDef)
         \<or> isBuildable (gmap g) p = Inr False
         \<or> find (\<lambda>t. x_of (tile t) = x_of p \<and> y_of (tile t) = y_of p) (towers g) \<noteq> None"
  shows "g' = g \<and> k' = k"
  using assms unfolding placeTower_def
  by (auto split: property.splits option.splits if_splits sum.splits)

text \<open>
  When \<open>placeTower\<close> throws: the tower type is known and affordable, or it names a
  property that every object inherits, and the position lies inside the 20 by 15 extent
  but its \<open>y\<close> is not the index of a row of the map; or the tower type names an inherited
  property and the position is a free buildable tile.
\<close>

lemma placeTower_raises_iff:
  "placeTower rnd k g p towerType = Inl e \<longleftrightarrow>
     ((\<exists>towerDef. TOWER_DEFINITIONS towerType = Own towerDef \<and> baseCost towerDef \<le> money g)
        \<or> TOWER_DEFINITIONS towerType = Inherited)
       \<and> isValidVec p \<and> at_num (tiles (gmap g)) (y_of p) = None
     \<or> TOWER_DEFINITIONS towerType = Inherited \<and> isBuildable (gmap g) p = Inr True
       \<and> find (\<lambda>t. x_of (tile t) = x_of p \<and> y_of (tile t) = y_of p) (towers g) = None"
  unfolding placeTower_def isBuildable_def
  by (cases e) (auto split: property.splits option.splits if_splits sum.splits)

text \<open>
  Claim C3 fails on the code where it says that the operation never raises an error.
  \<open>isBuildable\<close> tests the position against the constant 20 by 15 extent and then reads
  \<open>map.tiles[pos.y][pos.x]\<close>; for a position inside that extent whose \<open>y\<close> is not the
  index of a row (a fractional \<open>y\<close>, or a map with fewer than 15 rows) the row is
  \<open>undefined\<close> and reading its element throws.
\<close>

theorem placeTower_raises_off_row:
  "placeTower (\<lambda>n. 0) 0 exampleGame (Vec2 1 (3 / 2)) ''arrow'' = Inl TypeError"
  by (simp add: placeTower_def TOWER_DEFINITIONS_def towerDefOf_def exampleGame_def
      isBuildable_def isValidVec_def isValid_def MAP_WIDTH_def MAP_HEIGHT_def at_num_def
      exampleMap_def)

lemma placeTower_raises_small_map:
  "placeTower (\<lambda>n. 0) 0 (exampleGame\<lparr>gmap := exampleMap\<lparr>height := 10, tiles := take 10 exampleTiles\<rparr>\<rparr>)
     (Vec2 3 12) ''arrow'' = Inl TypeError"
  by (simp add: placeTower_def TOWER_DEFINITIONS_def towerDefOf_def exampleGame_def
      isBuildable_def isValidVec_def isValid_def MAP_WIDTH_def MAP_HEIGHT_def at_num_def
      at_int_def exampleMap_def)

lemma placeTower_example:
  "placeTower (\<lambda>n. 0) 0 exampleGame (Vec2 1 1) ''arrow'' =
     Inr (exampleGame\<lparr>towers := [newTower (towerDefOf Arrow) (Vec2 1 1) 0 0], money := 180\<rparr>, 1)"
proof -
  have "at_num exampleTiles 1 = Some (replicate 20 Buildable)"
    by (simp add: at_num_def at_int_def exampleTiles_def)
  then have "isBuildable (gmap exampleGame) (Vec2 1 1) = Inr True"
    by (simp add: isBuildable_def isValidVec_def isValid_def MAP_WIDTH_def MAP_HEIGHT_def
        exampleGame_def exampleMap_def at_num_def at_int_def)
  moreover have "TOWER_DEFINITIONS ''arrow'' = Own (towerDefOf Arrow)"
    by (simp add: TOWER_DEFINITIONS_def)
  moreover have "baseCost (towerDefOf Arrow) = 20" by (simp add: towerDefOf_def)
  moreover have "money exampleGame = 200" "towers exampleGame = []" "time exampleGame = 0"
    by (simp_all add: exampleGame_def)
  ultimately show ?thesis
    using placeTower_accepts [of "''arrow''" "towerDefOf Arrow" exampleGame "Vec2 1 1" "\<lambda>n. 0" 0]
    by simp
qed

text \<open>
  A tower type that names an inherited property of the table, on a free buildable tile:
  the placement throws as well.
\<close>

lemma placeTower_raises_inherited:
  "placeTower (\<lambda>n. 0) 0 exampleGame (Vec2 1 1) ''constructor'' = Inl TypeError"
proof -
  have "at_num exampleTiles 1 = Some (replicate 20 Buildable)"
    by (simp add: at_num_def at_int_def exampleTiles_def)
  then have "isBuildable (gmap exampleGame) (Vec2 1 1) = Inr True"
    by (simp add: isBuildable_def isValidVec_def isValid_def MAP_WIDTH_def MAP_HEIGHT_def
        exampleGame_def exampleMap_def at_num_def at_int_def)
  moreover have "TOWER_DEFINITIONS ''constructor'' = Inherited"
    by (simp add: TOWER_DEFINITIONS_def objectPrototypeKeys_def)
  moreover have "towers exampleGame = []" by (simp add: exampleGame_def)
  ultimately show ?thesis by (simp add: placeTower_def)
qed

section \<open>The tick\<close>

text \<open>No update stage changes the clock, the tick counter or the lives.\<close>

lemma updateWaves_frame:
  assumes "updateWaves rnd k g = Inr (g', k')"
  shows "time g' = time g \<and> tickCount g' = tickCount g \<and> lives g' = lives g"
  using assms unfolding updateWaves_def setWave_def Let_def
  by (auto split: if_splits option.splits list.splits)

lemma updateMobs_frame:
  assumes "updateMobs g dt = Inr g'"
  shows "time g' = time g \<and> tickCount g' = tickCount g \<and> lives g' = lives g"
  using assms unfolding updateMobs_def by (auto split: sum.splits)

lemma updateTowers_frame:
  assumes "updateTowers rnd k g = (g', k')"
  shows "time g' = time g \<and> tickCount g' = tickCount g \<and> lives g' = lives g"
  using assms unfolding updateTowers_def by (auto split: prod.splits)

lemma splashHit_frame:
  "time (splashHit g r) = time g \<and> tickCount (splashHit g r) = tickCount g
   \<and> lives (splashHit g r) = lives g"
  unfolding splashHit_def Let_def by (simp split: option.splits)

lemma foldl_splashHit_frame:
  "time (foldl splashHit g rs) = time g \<and> tickCount (foldl splashHit g rs) = tickCount g
   \<and> lives (foldl splashHit g rs) = lives g"
  by (induction rs arbitrary: g) (simp_all add: splashHit_frame)

lemma singleTargetHit_frame:
  "time (singleTargetHit g p t w) = time g \<and> tickCount (singleTargetHit g p t w) = tickCount g
   \<and> lives (singleTargetHit g p t w) = lives g"
  unfolding singleTargetHit_def Let_def by (simp split: option.splits prod.splits)

lemma applyProjectileHit_frame:
  "time (applyProjectileHit g p t w) = time g \<and> tickCount (applyProjectileHit g p t w) = tickCount g
   \<and> lives (applyProjectileHit g p t w) = lives g"
  unfolding applyProjectileHit_def Let_def
  by (simp add: foldl_splashHit_frame singleTargetHit_frame split: option.splits)

lemma projectileAt_frame:
  "time (projectileAt dt i g) = time g \<and> tickCount (projectileAt dt i g) = tickCount g
   \<and> lives (projectileAt dt i g) = lives g"
  unfolding projectileAt_def Let_def
  by (simp add: applyProjectileHit_frame split: option.splits)

lemma projectilesLoop_frame:
  "time (projectilesLoop dt n g) = time g \<and> tickCount (projectilesLoop dt n g) = tickCount g
   \<and> lives (projectilesLoop dt n g) = lives g"
  by (induction n arbitrary: g) (simp_all add: projectileAt_frame)

lemma cleanupEntities_frame:
  "time (cleanupEntities g) = time g \<and> tickCount (cleanupEntities g) = tickCount g
   \<and> lives (cleanupEntities g) = lives g"
  unfolding cleanupEntities_def Let_def by simp

lemma stateAtEvaluation_frame:
  assumes "stateAtEvaluation rnd k g dt = Inr (pre, k')"
  shows "time pre = time g + dt \<and> tickCount pre = tickCount g + 1 \<and> lives pre = lives g"
proof -
  let ?g0 = "g\<lparr>time := time g + dt, tickCount := tickCount g + 1\<rparr>"
  from assms obtain g1 k1 g2 g3 where
    a: "updateWaves rnd k ?g0 = Inr (g1, k1)" and
    b: "updateMobs g1 dt = Inr g2" and
    c: "updateTowers rnd k1 g2 = (g3, k')" and
    d: "pre = cleanupEntities (updateProjectiles g3 dt)"
    unfolding stateAtEvaluation_def by (auto split: sum.splits prod.splits)
  from updateWaves_frame [OF a] updateMobs_frame [OF b] updateTowers_frame [OF c] d
  show ?thesis
    by (simp add: cleanupEntities_frame updateProjectiles_def projectilesLoop_frame)
qed

lemma checkGameState_frame:
  "time (checkGameState g) = time g \<and> tickCount (checkGameState g) = tickCount g"
  unfolding checkGameState_def Let_def setWave_def by (simp split: option.splits)

lemma checkGameState_lives:
  "lives (checkGameState g) = lives g - real (length (filter reachedEnd (mobs g)))"
  unfolding checkGameState_def Let_def setWave_def by (simp split: option.splits)

lemma checkGameState_mobs:
  "mobs (checkGameState g) = filter (\<lambda>m. \<not> reachedEnd m) (mobs g)"
  unfolding checkGameState_def Let_def setWave_def by (simp split: option.splits)

lemma advanceTick_stages:
  assumes "advanceTick rnd k g dt = Inr (g', k')"
  obtains pre where "stateAtEvaluation rnd k g dt = Inr (pre, k')" and "g' = checkGameState pre"
  using assms unfolding advanceTick_def by (auto split: sum.splits)

lemma advanceTick_time_tick:
  assumes "advanceTick rnd k g dt = Inr (g', k')"
  shows "time g' = time g + dt \<and> tickCount g' = tickCount g + 1"
proof -
  from assms obtain pre where p: "stateAtEvaluation rnd k g dt = Inr (pre, k')"
    and g': "g' = checkGameState pre"
    by (rule advanceTick_stages)
  show ?thesis using stateAtEvaluation_frame [OF p] g' by (simp add: checkGameState_frame)
qed

lemmas example_defs = exampleGame_def exampleWave_def exampleMap_def examplePath_def

lemmas tick_defs = advanceTick_def stateAtEvaluation_def updateWaves_def
  at_nat_def createMob_def MOB_DEFINITIONS_def setWave_def Let_def
  updateMobs_def moveMob_def cleanupExpiredEffects_def updateMobSpeed_def
  at_int_def distance_unit_step gridToWorld_def updateTowers_def updateProjectiles_def
  cleanupEntities_def checkGameState_def

text \<open>
  Claim C1 fails on the code: a tick that spawns a mob (or fires a projectile) names the
  new entity with a \<open>Math.random()\<close> draw, so two calls on the same game and \<open>dt\<close> return
  different games when the generator returns different numbers. Here the same first tick
  of the example game, once with draw \<open>1/4\<close> and once with draw \<open>3/4\<close>.
\<close>

theorem advanceTick_ids_follow_random:
  "(case advanceTick (\<lambda>n. 1 / 4) 0 exampleGame TICK_DURATION of
      Inr (g', _) \<Rightarrow> map mobId (mobs g') | Inl _ \<Rightarrow> []) = [MobIdent (50 / 3) (1 / 4)]
   \<and> (case advanceTick (\<lambda>n. 3 / 4) 0 exampleGame TICK_DURATION of
      Inr (g', _) \<Rightarrow> map mobId (mobs g') | Inl _ \<Rightarrow> []) = [MobIdent (50 / 3) (3 / 4)]"
  by (simp add: tick_defs example_defs TICK_DURATION_def)

text \<open>
  Claim C2 fails on the code: \<open>advanceTick\<close> does not look at the lifecycle state. On
  a game that is over it still advances the clock and the tick counter and spawns a
  mob, so the returned game differs from its input. The engine receives such a game
  from its own driver: \<open>update\<close> tests the state before its loop and not between two
  ticks. With 40 ms to simulate on the game that is down to its last life, the first tick
  takes the life and sets the state to \<open>gameOver\<close>, and the second tick runs on that
  game: the store ends at tick 2 with a second mob spawned after the game was lost.
\<close>

theorem advanceTick_runs_after_game_over:
  "state overGame = GameOver \<and> time overGame = 0 \<and> tickCount overGame = 0 \<and> mobs overGame = []
   \<and> (case advanceTick (\<lambda>n. 0) 0 overGame TICK_DURATION of
        Inr (g', _) \<Rightarrow> (state g', time g', tickCount g', length (mobs g'))
      | Inl _ \<Rightarrow> (Menu, 0, 0, 0)) = (GameOver, 50 / 3, 1, 1)
   \<and> isRunning lastLifeStore \<and> storeGame lastLifeStore = lastLifeGame
   \<and> state lastLifeGame = Playing \<and> lives lastLifeGame = 1 \<and> tickCount lastLifeGame = 0
   \<and> (case advanceTick (\<lambda>n. 0) 0 lastLifeGame TICK_DURATION of
        Inr (g', _) \<Rightarrow> (state g', lives g', tickCount g', length (mobs g'))
      | Inl _ \<Rightarrow> (Menu, 0, 0, 0)) = (GameOver, 0, 1, 1)
   \<and> (case update (\<lambda>n. 0) 0 lastLifeStore 40 of
        Inr (st', _) \<Rightarrow> (state (storeGame st'), lives (storeGame st'), tickCount (storeGame st'),
                         length (mobs (storeGame st')))
      | Inl _ \<Rightarrow> (Menu, 0, 0, 0)) = (GameOver, 0, 2, 2)"
proof -
  have over: "(case advanceTick (\<lambda>n. 0) 0 overGame TICK_DURATION of
        Inr (g', _) \<Rightarrow> (state g', time g', tickCount g', length (mobs g'))
      | Inl _ \<Rightarrow> (Menu, 0, 0, 0)) = (GameOver, 50 / 3, 1, 1)"
    by (simp add: tick_defs example_defs overGame_def TICK_DURATION_def)
  have one: "(case advanceTick (\<lambda>n. 0) 0 lastLifeGame TICK_DURATION of
        Inr (g', _) \<Rightarrow> (state g', lives g', tickCount g', length (mobs g'))
      | Inl _ \<Rightarrow> (Menu, 0, 0, 0)) = (GameOver, 0, 1, 1)"
    by (simp add: tick_defs example_defs lastLifeGame_def nearBaseMob_def mobA_def TICK_DURATION_def)
  have two: "(case update (\<lambda>n. 0) 0 lastLifeStore 40 of
        Inr (st', _) \<Rightarrow> (state (storeGame st'), lives (storeGame st'), tickCount (storeGame st'),
                         length (mobs (storeGame st')))
      | Inl _ \<Rightarrow> (Menu, 0, 0, 0)) = (GameOver, 0, 2, 2)"
    by (simp add: update_def lastLifeStore_def tick_defs example_defs lastLifeGame_def
        nearBaseMob_def mobA_def)
  have "state overGame = GameOver" "time overGame = 0" "tickCount overGame = 0" "mobs overGame = []"
    by (simp_all add: overGame_def exampleGame_def)
  moreover have "isRunning lastLifeStore" "storeGame lastLifeStore = lastLifeGame"
    by (simp_all add: lastLifeStore_def)
  moreover have "state lastLifeGame = Playing" "lives lastLifeGame = 1" "tickCount lastLifeGame = 0"
    by (simp_all add: lastLifeGame_def exampleGame_def)
  ultimately show ?thesis using over one two by (intro conjI)
qed

text \<open>
  The run of \<open>update\<close> above passes the driver's guard, the store running and its game
  in state \<open>playing\<close>, and returns a store.
\<close>

theorem advanceTick_runs_after_game_over_witness:
  "isRunning lastLifeStore \<and> state (storeGame lastLifeStore) = Playing
   \<and> (\<exists>st' k'. update (\<lambda>n. 0) 0 lastLifeStore 40 = Inr (st', k')
         \<and> state (storeGame st') = GameOver \<and> lives (storeGame st') = 0
         \<and> tickCount (storeGame st') = 2 \<and> length (mobs (storeGame st')) = 2)"
proof -
  from advanceTick_runs_after_game_over
  have r: "isRunning lastLifeStore" "storeGame lastLifeStore = lastLifeGame" "state lastLifeGame = Playing"
    and u: "(case update (\<lambda>n. 0) 0 lastLifeStore 40 of
        Inr (st', _) \<Rightarrow> (state (storeGame st'), lives (storeGame st'), tickCount (storeGame st'),
                         length (mobs (storeGame st')))
      | Inl _ \<Rightarrow> (Menu, 0, 0, 0)) = (GameOver, 0, 2, 2)"
    by blast+
  from u have "\<exists>st' k'. update (\<lambda>n. 0) 0 lastLifeStore 40 = Inr (st', k')
         \<and> state (storeGame st') = GameOver \<and> lives (storeGame st') = 0
         \<and> tickCount (storeGame st') = 2 \<and> length (mobs (storeGame st')) = 2"
    by (cases "update (\<lambda>n. 0) 0 lastLifeStore 40") auto
  with r show ?thesis by simp
qed

text \<open>
  Claim C4 fails on the code: \<open>updateWaves\<close> compares the entry's delay with the absolute
  simulation time, not with the time since the wave started. In a game at time 99 the
  tick of one second starts the wave at time 100 and, in the same tick, spawns the mob of
  an entry whose delay is 5 seconds.
\<close>

theorem advanceTick_spawns_before_delay:
  "map delay (entries delayedWave) = [5]
   \<and> (case advanceTick (\<lambda>n. 0) 0 lateGame 1 of
        Inr (g', _) \<Rightarrow> (time g', map startTime (waves g'), map mobId (mobs g'))
      | Inl _ \<Rightarrow> (0, [], [])) = (100, [Some 100], [MobIdent 100 0])"
  by (simp add: tick_defs example_defs lateGame_def delayedWave_def)

text \<open>
  Claim C6. Whenever \<open>advanceTick\<close> returns, the returned game is \<open>checkGameState\<close> of
  the state the tick has reached after its update stages; its lives are the input's lives
  minus the number of mobs of that state whose \<open>reachedEnd\<close> flag is set, and no mob of
  the returned game has the flag set.
\<close>

theorem advanceTick_lives:
  assumes "advanceTick rnd k g dt = Inr (g', k')"
  shows "\<exists>pre. stateAtEvaluation rnd k g dt = Inr (pre, k') \<and> g' = checkGameState pre
           \<and> lives g' = lives g - real (length (filter reachedEnd (mobs pre)))
           \<and> filter reachedEnd (mobs g') = []"
proof -
  from assms obtain pre where p: "stateAtEvaluation rnd k g dt = Inr (pre, k')"
    and g': "g' = checkGameState pre"
    by (rule advanceTick_stages)
  have "lives g' = lives g - real (length (filter reachedEnd (mobs pre)))"
    using stateAtEvaluation_frame [OF p] g' by (simp add: checkGameState_lives)
  moreover have "filter reachedEnd (mobs g') = []"
    using g' by (simp add: checkGameState_mobs)
  ultimately show ?thesis using p g' by blast
qed

theorem advanceTick_lives_witness:
  "\<exists>g' k' pre. advanceTick (\<lambda>n. 0) 0 endGame 1 = Inr (g', k')
     \<and> stateAtEvaluation (\<lambda>n. 0) 0 endGame 1 = Inr (pre, k')
     \<and> map reachedEnd (mobs pre) = [True] \<and> lives endGame = 100 \<and> lives g' = 99
     \<and> mobs g' = []"
proof -
  have "\<exists>g' k'. advanceTick (\<lambda>n. 0) 0 endGame 1 = Inr (g', k')"
    by (simp add: tick_defs example_defs endGame_def lastSegmentMob_def mobA_def)
  then obtain g' k' where a: "advanceTick (\<lambda>n. 0) 0 endGame 1 = Inr (g', k')" by blast
  from advanceTick_lives [OF a] obtain pre where
    p: "stateAtEvaluation (\<lambda>n. 0) 0 endGame 1 = Inr (pre, k')" and
    l: "lives g' = lives endGame - real (length (filter reachedEnd (mobs pre)))" and
    c: "g' = checkGameState pre"
    by blast
  have e: "\<exists>pre k'. stateAtEvaluation (\<lambda>n. 0) 0 endGame 1 = Inr (pre, k') \<and> map reachedEnd (mobs pre) = [True]"
    by (simp add: tick_defs example_defs endGame_def lastSegmentMob_def mobA_def)
  with p have r: "map reachedEnd (mobs pre) = [True]" by auto
  then have "length (filter reachedEnd (mobs pre)) = 1"
    by (cases "mobs pre") auto
  moreover have "lives endGame = 100" by (simp add: endGame_def exampleGame_def)
  ultimately have l': "lives g' = 99" using l by simp
  have m: "mobs g' = []"
    using r c by (cases "mobs pre") (auto simp: checkGameState_mobs)
  have "advanceTick (\<lambda>n. 0) 0 endGame 1 = Inr (g', k')
     \<and> stateAtEvaluation (\<lambda>n. 0) 0 endGame 1 = Inr (pre, k')
     \<and> map reachedEnd (mobs pre) = [True] \<and> lives endGame = 100 \<and> lives g' = 99
     \<and> mobs g' = []"
    using a p r \<open>lives endGame = 100\<close> l' m by (intro conjI)
  then show ?thesis by (intro exI)
qed

text \<open>
  The tick returns (throws no \<open>TypeError\<close>) when the map has a spawn point and every
  mob's path progress lies within 0 and 1.
\<close>

lemma at_int_inside: "0 \<le> i \<Longrightarrow> i < int (length xs) \<Longrightarrow> at_int xs i = Some (xs ! nat i)"
  by (simp add: at_int_def)

lemma moveMob_returns:
  assumes "0 \<le> pathProgress mob" and "pathProgress mob \<le> 1"
  shows "moveMob g dt mob \<noteq> Inl er"
proof (cases "isDead mob \<or> reachedEnd mob")
  case True
  then show ?thesis by (simp add: moveMob_def)
next
  case live: False
  define mob1 where "mob1 = cleanupExpiredEffects mob (time g)"
  have pp: "pathProgress mob1 = pathProgress mob"
    by (simp add: mob1_def cleanupExpiredEffects_def)
  show ?thesis
  proof (cases "paths (gmap g)")
    case Nil
    with live show ?thesis by (simp add: moveMob_def Let_def)
  next
    case (Cons path rest)
    show ?thesis
    proof (cases "length path > 1")
      case False
      with live Cons show ?thesis by (simp add: moveMob_def Let_def)
    next
      case True
      define lastIndex where "lastIndex = int (length path) - 1"
      define pathIndex where "pathIndex = \<lfloor>pathProgress mob1 * of_int lastIndex\<rfloor>"
      define nextPathIndex where "nextPathIndex = min (pathIndex + 1) lastIndex"
      define newPathIndex where "newPathIndex = min (nextPathIndex + 1) lastIndex"
      have len: "int (length path) = lastIndex + 1" by (simp add: lastIndex_def)
      have lpos: "1 \<le> lastIndex" using True by (simp add: lastIndex_def)
      have "0 \<le> pathProgress mob1 * of_int lastIndex" using assms(1) lpos pp by simp
      then have lo: "0 \<le> pathIndex" by (simp add: pathIndex_def)
      have "pathProgress mob1 * of_int lastIndex \<le> 1 * of_int lastIndex"
        using assms(2) lpos pp by (intro mult_right_mono) simp_all
      then have hi: "pathIndex \<le> lastIndex" by (simp add: pathIndex_def floor_le_iff)
      have a: "at_int path pathIndex = Some (path ! nat pathIndex)"
        using lo hi by (intro at_int_inside) (simp_all add: len)
      have b: "at_int path nextPathIndex = Some (path ! nat nextPathIndex)"
        using lo hi lpos by (intro at_int_inside) (auto simp: len nextPathIndex_def)
      have c: "at_int path newPathIndex = Some (path ! nat newPathIndex)"
        using lo hi lpos by (intro at_int_inside) (auto simp: len nextPathIndex_def newPathIndex_def)
      note unf = newPathIndex_def nextPathIndex_def pathIndex_def lastIndex_def mob1_def
      show ?thesis
        unfolding moveMob_def Let_def
        by (simp only: live Cons True a [unfolded unf] b [unfolded unf] c [unfolded unf]
            if_False if_True list.case option.case prod.case sum.distinct simp_thms
            split: if_split)
    qed
  qed
qed

lemma mobsLoop_returns:
  assumes "\<forall>mob\<in>set ms. 0 \<le> pathProgress mob \<and> pathProgress mob \<le> 1"
  shows "\<exists>ms'. mobsLoop g dt ms = Inr ms'"
  using assms
proof (induction ms)
  case Nil
  then show ?case by simp
next
  case (Cons mob ms)
  from Cons.prems have "moveMob g dt mob \<noteq> Inl er" for er by (simp add: moveMob_returns)
  then obtain mob' where a: "moveMob g dt mob = Inr mob'"
    by (cases "moveMob g dt mob") auto
  from Cons obtain ms' where b: "mobsLoop g dt ms = Inr ms'" by auto
  from a b show ?case by simp
qed

lemma updateWaves_returns:
  assumes "spawnPoints (gmap g) \<noteq> []"
    and "\<forall>mob\<in>set (mobs g). 0 \<le> pathProgress mob \<and> pathProgress mob \<le> 1"
  shows "\<exists>g' k'. updateWaves rnd k g = Inr (g', k')
           \<and> (\<forall>mob\<in>set (mobs g'). 0 \<le> pathProgress mob \<and> pathProgress mob \<le> 1)"
proof -
  obtain sp sps where sp: "spawnPoints (gmap g) = sp # sps"
    using assms(1) by (cases "spawnPoints (gmap g)") auto
  have new: "pathProgress (createMob ty p t r) = 0" for ty p t r
    by (simp add: createMob_def Let_def)
  show ?thesis
    unfolding updateWaves_def setWave_def Let_def
    using assms(2) sp new by (auto split: option.splits)
qed

lemma advanceTick_returns:
  assumes "spawnPoints (gmap g) \<noteq> []"
    and "\<forall>mob\<in>set (mobs g). 0 \<le> pathProgress mob \<and> pathProgress mob \<le> 1"
  shows "\<exists>g' k'. advanceTick rnd k g dt = Inr (g', k')"
proof -
  let ?g0 = "g\<lparr>time := time g + dt, tickCount := tickCount g + 1\<rparr>"
  from updateWaves_returns [of ?g0 rnd k] assms obtain g1 k1 where
    a: "updateWaves rnd k ?g0 = Inr (g1, k1)" and
    b: "\<forall>mob\<in>set (mobs g1). 0 \<le> pathProgress mob \<and> pathProgress mob \<le> 1"
    by auto
  from mobsLoop_returns [OF b] obtain ms where "mobsLoop g1 dt (mobs g1) = Inr ms"
    by blast
  then have c: "updateMobs g1 dt = Inr (g1\<lparr>mobs := ms\<rparr>)" by (simp add: updateMobs_def)
  obtain g3 k3 where d: "updateTowers rnd k1 (g1\<lparr>mobs := ms\<rparr>) = (g3, k3)"
    by (cases "updateTowers rnd k1 (g1\<lparr>mobs := ms\<rparr>)")
  show ?thesis
    using a c d by (simp add: advanceTick_def stateAtEvaluation_def)
qed

section \<open>Pathfinding\<close>

subsection \<open>Cells, neighbours and the heuristic\<close>

lemma isValidVec_int:
  "isValidVec (p :: int vec2) \<longleftrightarrow> 0 \<le> x_of p \<and> x_of p < 20 \<and> 0 \<le> y_of p \<and> y_of p < 15"
  by (simp add: isValidVec_def isValid_def MAP_WIDTH_def MAP_HEIGHT_def)

lemma finite_validCells: "finite validCells"
proof -
  have "validCells \<subseteq> (\<lambda>(a, b). Vec2 a b) ` ({0..<20} \<times> {0..<15})"
  proof
    fix p assume "p \<in> validCells"
    then have "(x_of p, y_of p) \<in> {0..<20} \<times> {0..<15}"
      by (simp add: validCells_def isValidVec_int)
    then have "(\<lambda>(a, b). Vec2 a b) (x_of p, y_of p) \<in> (\<lambda>(a, b). Vec2 a b) ` ({0..<20} \<times> {0..<15})"
      by (rule imageI)
    then show "p \<in> (\<lambda>(a, b). Vec2 a b) ` ({0..<20} \<times> {0..<15})" by simp
  qed
  then show ?thesis by (rule finite_subset) simp
qed

lemma isGoal_iff: "isGoal p e \<longleftrightarrow> p = e"
  by (cases p; cases e) (simp add: isGoal_def)

lemma getNeighbors_iff:
  "q \<in> set (getNeighbors p) \<longleftrightarrow> adjacent4 p q \<and> isValidVec q"
proof (cases p; cases q)
  fix a b c d
  assume p: "p = Vec2 a b" and q: "q = Vec2 c d"
  have "adjacent4 p q \<longleftrightarrow> (c = a \<and> d = b - 1) \<or> (c = a + 1 \<and> d = b) \<or> (c = a \<and> d = b + 1) \<or> (c = a - 1 \<and> d = b)"
    unfolding adjacent4_def p q by simp arith
  then show ?thesis
    unfolding getNeighbors_def p q by auto
qed

lemma isWalkable_valid: "isWalkable m p = Inr True \<Longrightarrow> isValidVec p"
  by (simp add: isWalkable_def split: if_splits)

lemma isWalkable_total:
  assumes "15 \<le> length (tiles m)"
  shows "isWalkable m p \<noteq> Inl er"
proof (cases "isValidVec p")
  case True
  then have y: "0 \<le> y_of p" "y_of p < 15" by (simp_all add: isValidVec_int)
  then have "nat (y_of p) < length (tiles m)" using assms by linarith
  with y show ?thesis by (simp add: isWalkable_def at_int_def)
next
  case False
  then show ?thesis by (simp add: isWalkable_def)
qed

lemma heuristic_step: "adjacent4 p q \<Longrightarrow> heuristic p e \<le> 1 + heuristic q e"
  unfolding adjacent4_def heuristic_def by arith

subsection \<open>Routes\<close>

lemma stepsOK_append1:
  "stepsOK m (p @ [q]) \<longleftrightarrow> stepsOK m p \<and> (p = [] \<or> (adjacent4 (last p) q \<and> isWalkable m q = Inr True))"
proof (induction m p rule: stepsOK.induct)
  case (3 m a b r)
  then show ?case by (cases r) auto
qed simp_all

lemma stepsOK_take: "stepsOK m q \<Longrightarrow> stepsOK m (take k q)"
proof (induction m q arbitrary: k rule: stepsOK.induct)
  case 1
  then show ?case by simp
next
  case (2 m p)
  then show ?case by (cases k) simp_all
next
  case (3 m a b r)
  show ?case
  proof (cases k)
    case 0
    then show ?thesis by simp
  next
    case (Suc k')
    from 3 have "stepsOK m (take k' (b # r))" by simp
    then show ?thesis using 3(2) Suc by (cases k') simp_all
  qed
qed

lemma stepsOK_nth:
  "stepsOK m q \<Longrightarrow> Suc i < length q \<Longrightarrow> adjacent4 (q ! i) (q ! Suc i) \<and> isWalkable m (q ! Suc i) = Inr True"
proof (induction m q arbitrary: i rule: stepsOK.induct)
  case (3 m a b r)
  then show ?case by (cases i) simp_all
qed simp_all

lemma route_prefix:
  assumes "route m s e q" and "i < length q"
  shows "route m s (q ! i) (take (Suc i) q)"
proof -
  from assms have ne: "q \<noteq> []" and h: "hd q = s" and st: "stepsOK m q"
    by (simp_all add: route_def)
  have "take (Suc i) q \<noteq> []" using ne by simp
  moreover have "hd (take (Suc i) q) = s" using ne h by (cases q) simp_all
  moreover have "last (take (Suc i) q) = q ! i"
    using assms(2) by (simp add: take_Suc_conv_app_nth)
  moreover have "stepsOK m (take (Suc i) q)" using st by (rule stepsOK_take)
  ultimately show ?thesis by (simp add: route_def)
qed

text \<open>Along a route the heuristic drops by at most one per step.\<close>

lemma heuristic_along:
  assumes "stepsOK m q" and "i < length q"
  shows "heuristic (q ! i) e \<le> int (length q) - 1 - int i + heuristic (last q) e"
  using assms
proof (induction "length q - 1 - i" arbitrary: i)
  case 0
  then have "i = length q - 1" by simp
  moreover have "q \<noteq> []" using 0(3) by auto
  ultimately have "q ! i = last q" by (simp add: last_conv_nth)
  moreover have "int (length q) - 1 - int i = 0" using \<open>i = length q - 1\<close> 0(3) by simp
  ultimately show ?case by simp
next
  case (Suc d)
  then have lt: "Suc i < length q" by simp
  from stepsOK_nth [OF Suc(3) lt] have "adjacent4 (q ! i) (q ! Suc i)" by simp
  then have "heuristic (q ! i) e \<le> 1 + heuristic (q ! Suc i) e" by (rule heuristic_step)
  moreover have "heuristic (q ! Suc i) e \<le> int (length q) - 1 - int (Suc i) + heuristic (last q) e"
    using Suc(1) [of "Suc i"] Suc(2) Suc(3) lt by simp
  ultimately show ?case by simp
qed

subsection \<open>Nodes\<close>

lemma reconstructPath_nonempty: "reconstructPath n \<noteq> []"
  by (induction n rule: reconstructPath.induct) simp_all

lemma reconstructPath_last: "last (reconstructPath n) = npos n"
  by (induction n rule: reconstructPath.induct) simp_all

lemma goodNode_route: "goodNode m s e n \<Longrightarrow> route m s (npos n) (reconstructPath n)"
  by (simp add: goodNode_def route_def reconstructPath_nonempty reconstructPath_last)

lemma goodNode_child:
  assumes "goodNode m s e cur" and "adjacent4 (npos cur) v" and "isWalkable m v = Inr True"
  shows "goodNode m s e (ANode v (ng cur + 1) (heuristic v e) (Some cur))"
proof -
  let ?p = "reconstructPath cur"
  have ne: "?p \<noteq> []" by (rule reconstructPath_nonempty)
  have "hd (?p @ [v]) = s" using assms(1) ne by (simp add: goodNode_def)
  moreover have "stepsOK m (?p @ [v])"
    using assms by (simp add: stepsOK_append1 goodNode_def reconstructPath_last)
  moreover have "ng cur + 1 = int (length (?p @ [v])) - 1"
    using assms(1) by (simp add: goodNode_def)
  moreover have "isValidVec v" using assms(3) by (rule isWalkable_valid)
  ultimately show ?thesis by (simp add: goodNode_def)
qed

lemma findIndex_Some:
  "findIndex P xs = Some i \<Longrightarrow> i < length xs \<and> P (xs ! i)"
proof (induction xs arbitrary: i)
  case Nil
  then show ?case by simp
next
  case (Cons a as)
  show ?case
  proof (cases "P a")
    case True
    with Cons.prems show ?thesis by simp
  next
    case False
    with Cons.prems obtain j where j: "findIndex P as = Some j" and i: "i = Suc j"
      by (auto split: option.splits)
    from Cons.IH [OF j] i show ?thesis by simp
  qed
qed

lemma findIndex_None: "findIndex P xs = None \<Longrightarrow> \<forall>x\<in>set xs. \<not> P x"
  by (induction xs) (auto split: if_splits option.splits)

lemma lowestIndex_fold:
  assumes "n \<le> length xs" and "0 < length xs"
  shows "fold (\<lambda>i c. if nf (xs ! i) < nf (xs ! c) then i else c) [1..<n] 0 < length xs
         \<and> (\<forall>j. j < n \<longrightarrow> nf (xs ! (fold (\<lambda>i c. if nf (xs ! i) < nf (xs ! c) then i else c) [1..<n] 0)) \<le> nf (xs ! j))"
  using assms(1)
proof (induction n)
  case 0
  then show ?case using assms(2) by simp
next
  case (Suc n)
  let ?f = "\<lambda>i c. if nf (xs ! i) < nf (xs ! c) then i else c"
  show ?case
  proof (cases "n = 0")
    case True
    then show ?thesis using assms(2) by simp
  next
    case False
    then have up: "[1..<Suc n] = [1..<n] @ [n]" by simp
    from Suc have IH: "fold ?f [1..<n] 0 < length xs"
      "\<forall>j. j < n \<longrightarrow> nf (xs ! fold ?f [1..<n] 0) \<le> nf (xs ! j)"
      by simp_all
    define c where "c = fold ?f [1..<n] 0"
    have r: "fold ?f [1..<Suc n] 0 = (if nf (xs ! n) < nf (xs ! c) then n else c)"
      unfolding up c_def by simp
    have "(if nf (xs ! n) < nf (xs ! c) then n else c) < length xs"
      using IH(1) Suc.prems by (simp add: c_def)
    moreover have "nf (xs ! (if nf (xs ! n) < nf (xs ! c) then n else c)) \<le> nf (xs ! j)" if "j < Suc n" for j
    proof (cases "j = n")
      case True
      then show ?thesis by simp
    next
      case False
      with that have "j < n" by simp
      with IH(2) have "nf (xs ! c) \<le> nf (xs ! j)" by (simp add: c_def)
      then show ?thesis by simp
    qed
    ultimately show ?thesis unfolding r by blast
  qed
qed

lemma lowestIndex_least:
  assumes "xs \<noteq> []"
  shows "lowestIndex xs < length xs" and "\<forall>n\<in>set xs. nf (xs ! lowestIndex xs) \<le> nf n"
proof -
  from assms have pos: "0 < length xs" by simp
  from lowestIndex_fold [OF le_refl pos]
  show "lowestIndex xs < length xs" by (simp add: lowestIndex_def)
  from lowestIndex_fold [OF le_refl pos]
  show "\<forall>n\<in>set xs. nf (xs ! lowestIndex xs) \<le> nf n"
    by (auto simp: lowestIndex_def in_set_conv_nth)
qed

subsection \<open>The frontier\<close>

text \<open>
  Every route from the start to a cell that is not closed meets the open set: some cell
  of the route has an open node whose \<open>g\<close> is at most the cell's index on the route.
\<close>

lemma frontier:
  assumes inv: "searchInv m s e gc openSet closedSet"
    and r: "route m s v q" and v: "v \<notin> closedSet"
  shows "\<exists>i<length q. \<exists>n\<in>set openSet. npos n = q ! i \<and> ng n \<le> int i"
proof -
  from r have ne: "q \<noteq> []" and hd: "hd q = s" and la: "last q = v" and st: "stepsOK m q"
    by (simp_all add: route_def)
  define P where "P k \<longleftrightarrow> k < length q \<and> q ! k \<notin> closedSet" for k
  have "P (length q - 1)" using ne la v by (simp add: P_def last_conv_nth)
  define i where "i = (LEAST k. P k)"
  have Pi: "P i" unfolding i_def using \<open>P (length q - 1)\<close> by (rule LeastI)
  have below: "\<not> P k" if "k < i" for k using that unfolding i_def by (rule not_less_Least)
  from Pi have il: "i < length q" and ic: "q ! i \<notin> closedSet" by (simp_all add: P_def)
  have "\<exists>n\<in>set openSet. npos n = q ! i \<and> ng n \<le> int i"
  proof (cases i)
    case 0
    then have "q ! i = s" using ne hd by (simp add: hd_conv_nth)
    moreover from inv have "covered openSet closedSet s 0" by (simp add: searchInv_def)
    ultimately show ?thesis using ic 0 by (auto simp: covered_def)
  next
    case (Suc k)
    have kl: "k < length q" using il Suc by simp
    have "\<not> P k" using below [of k] Suc by simp
    then have uc: "q ! k \<in> closedSet" using kl by (simp add: P_def)
    from stepsOK_nth [OF st] il Suc
    have step: "adjacent4 (q ! k) (q ! i) \<and> isWalkable m (q ! i) = Inr True" by simp
    from inv uc step have "covered openSet closedSet (q ! i) (gc (q ! k) + 1)"
      unfolding searchInv_def by blast
    with ic obtain n where n: "n \<in> set openSet" "npos n = q ! i" "ng n \<le> gc (q ! k) + 1"
      by (auto simp: covered_def)
    from route_prefix [OF r kl] have "route m s (q ! k) (take (Suc k) q)" .
    with inv uc have "gc (q ! k) \<le> int (length (take (Suc k) q)) - 1"
      unfolding searchInv_def by blast
    then have "gc (q ! k) \<le> int k" using kl by simp
    with n Suc show ?thesis by auto
  qed
  with il show ?thesis by blast
qed

text \<open>
  The node taken from the open set, one of lowest \<open>f\<close>, has the least \<open>g\<close> any route to
  its cell allows: the Manhattan heuristic is consistent.
\<close>

lemma extraction_optimal:
  assumes inv: "searchInv m s e gc openSet closedSet"
    and cur: "cur \<in> set openSet"
    and low: "\<forall>n\<in>set openSet. nf cur \<le> nf n"
    and r: "route m s (npos cur) q"
  shows "ng cur \<le> int (length q) - 1"
proof -
  from inv cur have gcur: "goodNode m s e cur" and nc: "npos cur \<notin> closedSet"
    by (simp_all add: searchInv_def openGood_def)
  from frontier [OF inv r nc] obtain i n where
    i: "i < length q" and n: "n \<in> set openSet" "npos n = q ! i" "ng n \<le> int i"
    by blast
  from inv n(1) have gn: "goodNode m s e n" by (simp add: searchInv_def openGood_def)
  from r have st: "stepsOK m q" and la: "last q = npos cur" by (simp_all add: route_def)
  from heuristic_along [OF st i, of e] la
  have h: "heuristic (q ! i) e \<le> int (length q) - 1 - int i + heuristic (npos cur) e" by simp
  from low n(1) have "ng cur + nh cur \<le> ng n + nh n" by (simp add: nf_def)
  moreover have "nh cur = heuristic (npos cur) e" using gcur by (simp add: goodNode_def)
  moreover have "nh n = heuristic (q ! i) e" using gn n(2) by (simp add: goodNode_def)
  ultimately show ?thesis using h n(3) by simp
qed

subsection \<open>Relaxing the neighbours\<close>

lemma covered_update:
  assumes "covered xs cl v b" and "i < length xs" and "npos y = npos (xs ! i)" and "ng y \<le> ng (xs ! i)"
  shows "covered (xs[i := y]) cl v b"
proof (cases "v \<in> cl")
  case True
  then show ?thesis by (simp add: covered_def)
next
  case False
  with assms(1) obtain n where n: "n \<in> set xs" "npos n = v" "ng n \<le> b"
    by (auto simp: covered_def)
  from n(1) obtain j where j: "j < length xs" "xs ! j = n" by (auto simp: in_set_conv_nth)
  show ?thesis
  proof (cases "j = i")
    case True
    have "y \<in> set (xs[i := y])" using assms(2) by (simp add: set_update_memI)
    moreover have "npos y = v" using True j n(2) assms(3) by simp
    moreover have "ng y \<le> b" using True j n(3) assms(4) by simp
    ultimately show ?thesis by (auto simp: covered_def)
  next
    case False
    then have "xs[i := y] ! j = n" using j by simp
    moreover have "j < length (xs[i := y])" using j by simp
    ultimately have "n \<in> set (xs[i := y])" by (metis nth_mem)
    with n show ?thesis by (auto simp: covered_def)
  qed
qed

lemma relax_step:
  assumes og: "openGood m s e openSet cl"
    and cur: "goodNode m s e cur"
    and nb: "nb \<in> set (getNeighbors (npos cur))"
    and r: "relax m e cur cl openSet nb = Inr openSet'"
  shows "openGood m s e openSet' cl
         \<and> (\<forall>v b. covered openSet cl v b \<longrightarrow> covered openSet' cl v b)
         \<and> (isWalkable m nb = Inr True \<longrightarrow> covered openSet' cl nb (ng cur + 1))"
proof (cases "nb \<in> cl")
  case True
  then have "openSet' = openSet" using r by (simp add: relax_def)
  with og True show ?thesis by (simp add: covered_def)
next
  case ncl: False
  show ?thesis
  proof (cases "isWalkable m nb = Inr True")
    case False
    then have "openSet' = openSet"
      using r ncl by (auto simp: relax_def split: sum.splits if_splits)
    with og False show ?thesis by simp
  next
    case w: True
    from nb have adj: "adjacent4 (npos cur) nb" by (simp add: getNeighbors_iff)
    show ?thesis
    proof (cases "findIndex (\<lambda>n. npos n = nb) openSet")
      case None
      define new where "new = ANode nb (ng cur + 1) (heuristic nb e) (Some cur)"
      from None r ncl w have o': "openSet' = openSet @ [new]"
        by (simp add: relax_def new_def)
      have gnew: "goodNode m s e new" unfolding new_def using cur adj w by (rule goodNode_child)
      have fresh: "\<forall>n\<in>set openSet. npos n \<noteq> nb" using findIndex_None [OF None] by simp
      have "openGood m s e openSet' cl"
        using og gnew ncl fresh unfolding o' openGood_def by (auto simp: new_def)
      moreover have "\<forall>v b. covered openSet cl v b \<longrightarrow> covered openSet' cl v b"
        unfolding o' covered_def by auto
      moreover have "covered openSet' cl nb (ng cur + 1)"
        unfolding o' covered_def by (simp add: new_def)
      ultimately show ?thesis by simp
    next
      case (Some i)
      from findIndex_Some [OF Some] have il: "i < length openSet" and ip: "npos (openSet ! i) = nb"
        by simp_all
      have old: "openSet ! i \<in> set openSet" using il by simp
      show ?thesis
      proof (cases "ng cur + 1 < ng (openSet ! i)")
        case False
        then have o': "openSet' = openSet" using r ncl w Some by (simp add: relax_def)
        have "covered openSet cl nb (ng cur + 1)"
          using old ip False unfolding covered_def by auto
        with og o' show ?thesis by simp
      next
        case True
        define new where "new = ANode nb (ng cur + 1) (nh (openSet ! i)) (Some cur)"
        from True r ncl w Some ip have o': "openSet' = openSet[i := new]"
          by (simp add: relax_def new_def)
        from og old have "goodNode m s e (openSet ! i)" by (simp add: openGood_def)
        then have "nh (openSet ! i) = heuristic nb e" using ip by (simp add: goodNode_def)
        then have gnew: "goodNode m s e new"
          unfolding new_def using goodNode_child [OF cur adj w] by simp
        have pn: "npos new = npos (openSet ! i)" using ip by (simp add: new_def)
        have "map npos (openSet[i := new]) = (map npos openSet)[i := npos new]"
          by (rule map_update)
        also have "\<dots> = map npos openSet" using pn il by (simp add: list_update_same_conv)
        finally have mp: "map npos openSet' = map npos openSet" by (simp add: o')
        have "\<forall>n\<in>set openSet'. goodNode m s e n \<and> npos n \<notin> cl"
        proof
          fix n assume "n \<in> set openSet'"
          then have "n = new \<or> n \<in> set openSet"
            unfolding o' using set_update_subset_insert [of openSet i new] by auto
          then show "goodNode m s e n \<and> npos n \<notin> cl"
            using gnew ncl og by (auto simp: openGood_def new_def)
        qed
        then have "openGood m s e openSet' cl"
          using og mp by (simp add: openGood_def)
        moreover have "\<forall>v b. covered openSet cl v b \<longrightarrow> covered openSet' cl v b"
          unfolding o' using il pn True by (auto intro!: covered_update simp: new_def)
        moreover have "covered openSet' cl nb (ng cur + 1)"
        proof -
          have "new \<in> set openSet'" unfolding o' using il by (simp add: set_update_memI)
          moreover have "npos new = nb" "ng new \<le> ng cur + 1" by (simp_all add: new_def)
          ultimately show ?thesis unfolding covered_def by blast
        qed
        ultimately show ?thesis by simp
      qed
    qed
  qed
qed

lemma relaxAll_steps:
  assumes cur: "goodNode m s e cur"
    and nbs: "set nbs \<subseteq> set (getNeighbors (npos cur))"
    and og: "openGood m s e openSet cl"
    and r: "relaxAll m e cur cl openSet nbs = Inr openSet'"
  shows "openGood m s e openSet' cl
         \<and> (\<forall>v b. covered openSet cl v b \<longrightarrow> covered openSet' cl v b)
         \<and> (\<forall>v\<in>set nbs. isWalkable m v = Inr True \<longrightarrow> covered openSet' cl v (ng cur + 1))"
  using nbs og r
proof (induction nbs arbitrary: openSet)
  case Nil
  then show ?case by simp
next
  case (Cons nb nbs)
  from Cons.prems(3) obtain mid where
    a: "relax m e cur cl openSet nb = Inr mid" and b: "relaxAll m e cur cl mid nbs = Inr openSet'"
    by (auto split: sum.splits)
  have nb: "nb \<in> set (getNeighbors (npos cur))" using Cons.prems(1) by simp
  from relax_step [OF Cons.prems(2) cur nb a] have
    m1: "openGood m s e mid cl" and
    m2: "\<forall>v b. covered openSet cl v b \<longrightarrow> covered mid cl v b" and
    m3: "isWalkable m nb = Inr True \<longrightarrow> covered mid cl nb (ng cur + 1)"
    by simp_all
  have "set nbs \<subseteq> set (getNeighbors (npos cur))" using Cons.prems(1) by simp
  from Cons.IH [OF this m1 b] have
    f1: "openGood m s e openSet' cl" and
    f2: "\<forall>v b. covered mid cl v b \<longrightarrow> covered openSet' cl v b" and
    f3: "\<forall>v\<in>set nbs. isWalkable m v = Inr True \<longrightarrow> covered openSet' cl v (ng cur + 1)"
    by simp_all
  from m2 f2 have "\<forall>v b. covered openSet cl v b \<longrightarrow> covered openSet' cl v b" by blast
  moreover from m3 f2 f3
  have "\<forall>v\<in>set (nb # nbs). isWalkable m v = Inr True \<longrightarrow> covered openSet' cl v (ng cur + 1)"
    by auto
  ultimately show ?case using f1 by simp
qed

lemma relax_total:
  assumes "15 \<le> length (tiles m)"
  shows "relax m e cur cl openSet nb \<noteq> Inl er"
  using isWalkable_total [OF assms, of nb]
  by (auto simp: relax_def Let_def split: sum.splits option.splits)

lemma relaxAll_total:
  assumes "15 \<le> length (tiles m)"
  shows "relaxAll m e cur cl openSet nbs \<noteq> Inl er"
proof (induction nbs arbitrary: openSet)
  case Nil
  then show ?case by simp
next
  case (Cons nb nbs)
  then show ?case using relax_total [OF assms] by (auto split: sum.splits)
qed

subsection \<open>One iteration of the search loop\<close>

lemma splice1_set:
  assumes "distinct (map f xs)" and "i < length xs"
  shows "set (splice1 i xs) = set xs - {xs ! i}" and "distinct (map f (splice1 i xs))"
proof -
  have xs: "xs = take i xs @ xs ! i # drop (Suc i) xs"
    using assms(2) by (rule id_take_nth_drop)
  have d: "distinct (map f (take i xs @ xs ! i # drop (Suc i) xs))"
    using assms(1) xs by simp
  then have "distinct (take i xs @ xs ! i # drop (Suc i) xs)" by (metis distinct_map)
  then have "xs ! i \<notin> set (take i xs)" "xs ! i \<notin> set (drop (Suc i) xs)" by auto
  moreover have "set xs = set (take i xs) \<union> {xs ! i} \<union> set (drop (Suc i) xs)"
    by (subst xs) auto
  ultimately show "set (splice1 i xs) = set xs - {xs ! i}"
    by (auto simp: splice1_def)
  from d show "distinct (map f (splice1 i xs))" by (auto simp: splice1_def)
qed

lemma searchStep_good:
  assumes rows: "15 \<le> length (tiles m)"
    and good: "searchGood m s e st" and run: "searching st"
  shows "searchGood m s e (searchStep m e st) \<and> searchMeasure (searchStep m e st) < searchMeasure st"
proof (cases st)
  case (Finished r)
  with run show ?thesis by simp
next
  case (Running openSet closedSet)
  with run have ne: "openSet \<noteq> []" by auto
  from good Running obtain gc where inv: "searchInv m s e gc openSet closedSet"
    by (auto simp: searchGood_def)
  define ci where "ci = lowestIndex openSet"
  define cur where "cur = openSet ! ci"
  define rest where "rest = splice1 ci openSet"
  define cl where "cl = insert (npos cur) closedSet"
  from lowestIndex_least [OF ne] have cil: "ci < length openSet"
    and low: "\<forall>n\<in>set openSet. nf cur \<le> nf n"
    by (simp_all add: ci_def cur_def)
  have curin: "cur \<in> set openSet" using cil by (simp add: cur_def)
  from inv have og: "openGood m s e openSet closedSet" by (simp add: searchInv_def)
  from og curin have gcur: "goodNode m s e cur" and cnc: "npos cur \<notin> closedSet"
    by (simp_all add: openGood_def)
  have opt: "ng cur \<le> int (length q) - 1" if "route m s (npos cur) q" for q
    using inv curin low that by (rule extraction_optimal)
  show ?thesis
  proof (cases "isGoal (npos cur) e")
    case True
    then have pe: "npos cur = e" by (simp add: isGoal_iff)
    have step: "searchStep m e st = Finished (Inr (reconstructPath cur))"
      using True by (simp add: Running Let_def ci_def cur_def)
    have rt: "route m s e (reconstructPath cur)" using goodNode_route [OF gcur] pe by simp
    have "length (reconstructPath cur) \<le> length q" if "route m s e q" for q
    proof -
      from opt [of q] that pe have "ng cur \<le> int (length q) - 1" by simp
      moreover have "ng cur = int (length (reconstructPath cur)) - 1"
        using gcur by (simp add: goodNode_def)
      ultimately show ?thesis by simp
    qed
    with rt have "searchGood m s e (searchStep m e st)"
      unfolding step by (simp add: searchGood_def)
    moreover have "searchMeasure (searchStep m e st) = 0"
      by (simp only: step searchMeasure.simps)
    moreover have "0 < searchMeasure st" by (simp add: Running)
    ultimately show ?thesis by simp
  next
    case False
    then have pe: "npos cur \<noteq> e" by (simp add: isGoal_iff)
    obtain open'' where rel: "relaxAll m e cur cl rest (getNeighbors (npos cur)) = Inr open''"
      using relaxAll_total [OF rows, of e cur cl rest "getNeighbors (npos cur)"]
      by (cases "relaxAll m e cur cl rest (getNeighbors (npos cur))") auto
    have step: "searchStep m e st = Running open'' cl"
      using False rel by (simp add: Running Let_def ci_def cur_def rest_def cl_def)
    from og have dist: "distinct (map npos openSet)" by (simp add: openGood_def)
    from splice1_set [OF dist cil]
    have rs: "set rest = set openSet - {cur}" and rd: "distinct (map npos rest)"
      by (simp_all add: rest_def cur_def)
    have other: "npos n \<noteq> npos cur" if "n \<in> set rest" for n
    proof -
      from that rs have "n \<in> set openSet" "n \<noteq> cur" by auto
      with curin dist show ?thesis by (auto simp: distinct_map inj_on_def)
    qed
    have ogr: "openGood m s e rest cl"
      using og rs rd other unfolding openGood_def cl_def by auto
    have cov0: "covered rest cl v b" if "covered openSet closedSet v b" for v b
    proof (cases "v \<in> closedSet")
      case True
      then show ?thesis by (simp add: covered_def cl_def)
    next
      case False
      with that obtain n where n: "n \<in> set openSet" "npos n = v" "ng n \<le> b"
        by (auto simp: covered_def)
      show ?thesis
      proof (cases "n = cur")
        case True
        with n show ?thesis by (simp add: covered_def cl_def)
      next
        case False
        with n rs have "n \<in> set rest" by simp
        with n show ?thesis by (auto simp: covered_def)
      qed
    qed
    from relaxAll_steps [OF gcur subset_refl ogr rel] have
      og'': "openGood m s e open'' cl" and
      mono: "\<forall>v b. covered rest cl v b \<longrightarrow> covered open'' cl v b" and
      nbc: "\<forall>v\<in>set (getNeighbors (npos cur)). isWalkable m v = Inr True \<longrightarrow>
              covered open'' cl v (ng cur + 1)"
      by simp_all
    have cov: "covered open'' cl v b" if "covered openSet closedSet v b" for v b
      using cov0 [OF that] mono by simp
    define gc' where "gc' = gc(npos cur := ng cur)"
    have i2: "cl \<subseteq> validCells"
      using inv gcur by (simp add: searchInv_def cl_def validCells_def goodNode_def)
    have i3: "covered open'' cl s 0" using inv cov by (simp add: searchInv_def)
    have i4: "covered open'' cl v (gc' u + 1)"
      if "u \<in> cl" and "adjacent4 u v \<and> isWalkable m v = Inr True" for u v
    proof (cases "u = npos cur")
      case True
      from that(2) have "isValidVec v" by (auto intro: isWalkable_valid)
      with that(2) True have "v \<in> set (getNeighbors (npos cur))" by (simp add: getNeighbors_iff)
      with nbc that(2) True show ?thesis by (simp add: gc'_def)
    next
      case False
      with that(1) have "u \<in> closedSet" by (simp add: cl_def)
      with inv that(2) have "covered openSet closedSet v (gc u + 1)"
        unfolding searchInv_def by blast
      then show ?thesis using cov False by (simp add: gc'_def)
    qed
    have i5: "gc' u \<le> int (length q) - 1" if "u \<in> cl" and "route m s u q" for u q
    proof (cases "u = npos cur")
      case True
      with opt [of q] that(2) show ?thesis by (simp add: gc'_def)
    next
      case False
      with that(1) have "u \<in> closedSet" by (simp add: cl_def)
      with inv that(2) have "gc u \<le> int (length q) - 1" unfolding searchInv_def by blast
      then show ?thesis using False by (simp add: gc'_def)
    qed
    have i6: "e \<notin> cl" using inv pe by (auto simp: searchInv_def cl_def)
    have "searchInv m s e gc' open'' cl"
      unfolding searchInv_def using og'' i2 i3 i4 i5 i6 by blast
    then have "searchGood m s e (searchStep m e st)"
      unfolding step by (auto simp: searchGood_def)
    moreover have "searchMeasure (searchStep m e st) < searchMeasure st"
    proof -
      have "npos cur \<in> validCells" using gcur by (simp add: validCells_def goodNode_def)
      then have "validCells - cl \<subset> validCells - closedSet"
        using cnc by (auto simp: cl_def)
      moreover have "finite (validCells - closedSet)" using finite_validCells by simp
      ultimately have "card (validCells - cl) < card (validCells - closedSet)"
        by (rule psubset_card_mono [rotated])
      moreover have "searchMeasure (searchStep m e st) = Suc (card (validCells - cl))"
        by (simp only: step searchMeasure.simps)
      moreover have "searchMeasure st = Suc (card (validCells - closedSet))"
        by (simp add: Running)
      ultimately show ?thesis by simp
    qed
    ultimately show ?thesis by simp
  qed
qed

lemma search_initial:
  assumes "isValidVec s"
  shows "searchGood m s e (Running [ANode s 0 (heuristic s e) None] {})"
proof -
  have "goodNode m s e (ANode s 0 (heuristic s e) None)"
    using assms by (simp add: goodNode_def)
  then have "searchInv m s e (\<lambda>u. 0) [ANode s 0 (heuristic s e) None] {}"
    by (simp add: searchInv_def openGood_def covered_def)
  then show ?thesis by (auto simp: searchGood_def)
qed

subsection \<open>Routes and paths of walkable cells\<close>

lemma stepsOK_walkable:
  assumes "q \<noteq> []" and "isWalkable m (hd q) = Inr True"
  shows "stepsOK m q \<longleftrightarrow> list_all (\<lambda>c. isWalkable m c = Inr True) q \<and> successively adjacent4 q"
  using assms
proof (induction m q rule: stepsOK.induct)
  case (3 m a b r)
  show ?case
  proof (cases "isWalkable m b = Inr True")
    case True
    with "3.IH" have "stepsOK m (b # r) \<longleftrightarrow>
        list_all (\<lambda>c. isWalkable m c = Inr True) (b # r) \<and> successively adjacent4 (b # r)"
      by simp
    with True "3.prems" show ?thesis by auto
  next
    case False
    then show ?thesis by simp
  qed
qed simp_all

lemma route_walkable_start:
  assumes "isWalkable m s = Inr True"
  shows "route m s e q \<longleftrightarrow> walkablePath m s e q"
proof (cases "q \<noteq> [] \<and> hd q = s")
  case True
  with stepsOK_walkable [of q m] assms show ?thesis
    by (auto simp: route_def walkablePath_def)
next
  case False
  then show ?thesis by (auto simp: route_def walkablePath_def)
qed

lemma walkablePath_needs_walkable_start:
  "walkablePath m s e q \<Longrightarrow> isWalkable m s = Inr True"
  by (cases q) (auto simp: walkablePath_def)

subsection \<open>What findPath returns\<close>

text \<open>
  Claim C5, as stated, fails: the search never tests the start cell for walkability. On
  the example map the tile at (5, 5) is blocked, no path of walkable cells starts there,
  and yet \<open>findPath\<close> from that cell to itself returns the one-cell sequence.
\<close>

theorem findPath_from_blocked_start:
  "at_int exampleTiles 5 = Some ((replicate 20 Buildable)[5 := Blocked, 6 := Blocked])
   \<and> isWalkable exampleMap (Vec2 5 5) = Inr False
   \<and> findPath exampleMap (Vec2 5 5) (Vec2 5 5) = Some (Inr [Vec2 5 5])"
proof -
  have t: "at_int exampleTiles 5 = Some ((replicate 20 Buildable)[5 := Blocked, 6 := Blocked])"
    by (simp add: at_int_def exampleTiles_def)
  then have "isWalkable exampleMap (Vec2 5 5) = Inr False"
    by (simp add: isWalkable_def isValidVec_int exampleMap_def at_int_def)
  moreover have "findPath exampleMap (Vec2 5 5) (Vec2 5 5) = Some (Inr [Vec2 5 5])"
    by (simp add: findPath_def isValidVec_int while_option_unfold lowestIndex_def isGoal_def
        heuristic_def splice1_def)
  ultimately show ?thesis using t by simp
qed

text \<open>
  The search terminates without an error and returns a shortest route, or the empty
  sequence when there is no route.
\<close>

lemma findPath_route:
  assumes "isValidVec start" and "isValidVec goal" and "15 \<le> length (tiles m)"
  shows "\<exists>p. findPath m start goal = Some (Inr p)
           \<and> (if \<exists>q. route m start goal q
               then route m start goal p \<and> (\<forall>q. route m start goal q \<longrightarrow> length p \<le> length q)
               else p = [])"
proof -
  let ?init = "Running [ANode start 0 (heuristic start goal) None] {}"
  have init: "searchGood m start goal ?init" using assms(1) by (rule search_initial)
  have stepP: "searchGood m start goal (searchStep m goal st)
               \<and> searchMeasure (searchStep m goal st) < searchMeasure st"
    if "searchGood m start goal st" and "searching st" for st
    using assms(3) that by (rule searchStep_good)
  from measure_while_option_Some [where P = "searchGood m start goal" and b = searching
      and c = "searchStep m goal" and f = searchMeasure, OF stepP init]
  obtain t where t: "while_option searching (searchStep m goal) ?init = Some t" by blast
  have tgood: "searchGood m start goal t"
  proof (rule while_option_rule [where P = "searchGood m start goal", OF _ t init])
    fix st assume "searchGood m start goal st" and "searching st"
    then show "searchGood m start goal (searchStep m goal st)" using stepP by blast
  qed
  have tstop: "\<not> searching t" using t by (rule while_option_stop)
  show ?thesis
  proof (cases t)
    case (Finished r)
    with tgood obtain p where p: "r = Inr p" "route m start goal p"
      "\<forall>q. route m start goal q \<longrightarrow> length p \<le> length q"
      by (auto simp: searchGood_def)
    have "findPath m start goal = Some (Inr p)"
      using assms(1,2) t Finished p(1) by (simp add: findPath_def)
    moreover have "\<exists>q. route m start goal q" using p(2) by blast
    ultimately show ?thesis using p(2,3) by simp
  next
    case (Running openSet closedSet)
    with tstop have empty: "openSet = []" by simp
    from tgood Running obtain gc where inv: "searchInv m start goal gc openSet closedSet"
      by (auto simp: searchGood_def)
    have none: "\<not> route m start goal q" for q
    proof
      assume "route m start goal q"
      moreover from inv have "goal \<notin> closedSet" by (simp add: searchInv_def)
      ultimately have "\<exists>i<length q. \<exists>n\<in>set openSet. npos n = q ! i \<and> ng n \<le> int i"
        using inv by (intro frontier)
      with empty show False by simp
    qed
    have "findPath m start goal = Some (Inr [])"
      using assms(1,2) t Running by (simp add: findPath_def)
    then show ?thesis using none by simp
  qed
qed

text \<open>
  Claim C5, amended. On a map whose tile grid has a row for each of the 15 valid \<open>y\<close>,
  and for valid cells \<open>start\<close> and \<open>goal\<close>, \<open>findPath\<close> terminates without an error.
  The search tests the cells it enters, not the start cell: if some sequence of
  4-adjacent steps leads from \<open>start\<close> to \<open>goal\<close> through walkable cells, the result is
  such a sequence, beginning at \<open>start\<close> and ending at \<open>goal\<close>, and no such sequence is
  shorter; otherwise the result is empty. When \<open>start\<close> is walkable these sequences are
  the paths of walkable cells, and the claim holds as it was stated.
\<close>

theorem findPath_shortest:
  assumes "isValidVec start" and "isValidVec goal" and "15 \<le> length (tiles m)"
  shows "\<exists>p. findPath m start goal = Some (Inr p)
           \<and> (if \<exists>q. route m start goal q
               then route m start goal p \<and> (\<forall>q. route m start goal q \<longrightarrow> length p \<le> length q)
               else p = [])
           \<and> (isWalkable m start = Inr True \<longrightarrow>
                (if \<exists>q. walkablePath m start goal q
                 then walkablePath m start goal p
                      \<and> (\<forall>q. walkablePath m start goal q \<longrightarrow> length p \<le> length q)
                 else p = []))"
proof -
  from findPath_route [OF assms] obtain p where
    f: "findPath m start goal = Some (Inr p)" and
    r: "if \<exists>q. route m start goal q
        then route m start goal p \<and> (\<forall>q. route m start goal q \<longrightarrow> length p \<le> length q)
        else p = []"
    by blast
  have "if \<exists>q. walkablePath m start goal q
        then walkablePath m start goal p
             \<and> (\<forall>q. walkablePath m start goal q \<longrightarrow> length p \<le> length q)
        else p = []"
    if "isWalkable m start = Inr True"
    using r by (simp only: route_walkable_start [OF that])
  with f r show ?thesis by blast
qed

theorem findPath_shortest_witness:
  "isValidVec (Vec2 0 7 :: int vec2) \<and> isValidVec (Vec2 2 7 :: int vec2)
   \<and> 15 \<le> length (tiles exampleMap)
   \<and> isWalkable exampleMap (Vec2 0 7) = Inr True
   \<and> walkablePath exampleMap (Vec2 0 7) (Vec2 2 7) [Vec2 0 7, Vec2 1 7, Vec2 2 7]
   \<and> (\<exists>p. findPath exampleMap (Vec2 0 7) (Vec2 2 7) = Some (Inr p)
         \<and> walkablePath exampleMap (Vec2 0 7) (Vec2 2 7) p \<and> length p \<le> 3)"
proof -
  have v: "isValidVec (Vec2 0 7 :: int vec2)" "isValidVec (Vec2 2 7 :: int vec2)"
    by (simp_all add: isValidVec_int)
  have l: "15 \<le> length (tiles exampleMap)" by (simp add: exampleMap_def exampleTiles_def)
  have row: "at_int exampleTiles 7 = Some (replicate 20 Path)"
    by (simp add: at_int_def exampleTiles_def)
  have wk: "isWalkable exampleMap (Vec2 0 7) = Inr True"
    "isWalkable exampleMap (Vec2 1 7) = Inr True" "isWalkable exampleMap (Vec2 2 7) = Inr True"
    using row by (simp_all add: isWalkable_def isValidVec_int exampleMap_def at_int_def)
  have r: "walkablePath exampleMap (Vec2 0 7) (Vec2 2 7) [Vec2 0 7, Vec2 1 7, Vec2 2 7]"
    using wk by (simp add: walkablePath_def adjacent4_def)
  from findPath_shortest [OF v l] obtain p where
    p: "findPath exampleMap (Vec2 0 7) (Vec2 2 7) = Some (Inr p)"
       "if \<exists>q. route exampleMap (Vec2 0 7) (Vec2 2 7) q
        then route exampleMap (Vec2 0 7) (Vec2 2 7) p
             \<and> (\<forall>q. route exampleMap (Vec2 0 7) (Vec2 2 7) q \<longrightarrow> length p \<le> length q)
        else p = []"
       "isWalkable exampleMap (Vec2 0 7) = Inr True \<longrightarrow>
          (if \<exists>q. walkablePath exampleMap (Vec2 0 7) (Vec2 2 7) q
           then walkablePath exampleMap (Vec2 0 7) (Vec2 2 7) p
                \<and> (\<forall>q. walkablePath exampleMap (Vec2 0 7) (Vec2 2 7) q \<longrightarrow> length p \<le> length q)
           else p = [])"
    by blast
  from r have ex: "\<exists>q. walkablePath exampleMap (Vec2 0 7) (Vec2 2 7) q" by blast
  with p(3) wk(1) have rp: "walkablePath exampleMap (Vec2 0 7) (Vec2 2 7) p"
    and mn: "\<forall>q. walkablePath exampleMap (Vec2 0 7) (Vec2 2 7) q \<longrightarrow> length p \<le> length q"
    by simp_all
  from mn r have "length p \<le> 3" by fastforce
  with p(1) rp have "\<exists>p. findPath exampleMap (Vec2 0 7) (Vec2 2 7) = Some (Inr p)
         \<and> walkablePath exampleMap (Vec2 0 7) (Vec2 2 7) p \<and> length p \<le> 3"
    by blast
  with v l r wk(1) show ?thesis by blast
qed

end
